theory Spec2Isabelle
  imports Complex_Main "HOL-Library.AList" "HOL-Library.Log_Nat"
begin

section \<open>The image player of pi\_video\_looper (image\_player.py)\<close>

text \<open>
  The embedding follows \<^verbatim>\<open>Adafruit_Video_Looper/image_player.py\<close>. The class
  \<^verbatim>\<open>ImagePlayer\<close> is a record of its attributes, every method takes the record and
  returns the updated one. Exceptions are values of \<open>error\<close>; a method that may raise
  returns the exception (if any) together with the attributes as they are at that moment.
  The only loop of the file, the eviction loop of \<^verbatim>\<open>_add_to_cache\<close>, may run
  forever, so it is a \<^theory_text>\<open>partial_function\<close> in the option monad: \<open>None\<close>
  means that the call does not return.

  The file as it stands has two slips of transcription: its third line reads
  \<^verbatim>\<open>import import os\<close>, and the docstring of \<^verbatim>\<open>_get_image_size\<close> is cut in the
  middle and repeated. The embedding takes the method bodies as they are written.
\<close>

subsection \<open>Data\<close>

datatype error = PygameError | ZeroDivisionError

text \<open>
  A pygame surface: \<open>pixels\<close> identifies the decoded bitmap, \<open>surf_w\<close>, \<open>surf_h\<close>
  are what \<^verbatim>\<open>get_size()\<close> returns and \<open>bytesize\<close> what \<^verbatim>\<open>get_bytesize()\<close>
  returns.
\<close>

record surface =
  pixels :: nat
  surf_w :: nat
  surf_h :: nat
  bytesize :: nat

text \<open>The calls made on the screen surface and the display, in the order they are made.\<close>

datatype draw_op = Fill "int list" | Blit surface int int | Flip

text \<open>The playlist's image descriptor: \<^verbatim>\<open>image.filename\<close> and \<^verbatim>\<open>image.repeats\<close>.\<close>

record image =
  filename :: string
  repeats :: int

text \<open>
  The file system as the player sees it: \<open>None\<close> when the path is no regular file
  (\<^verbatim>\<open>os.path.isfile\<close> is false), \<open>Some None\<close> for a file that
  \<^verbatim>\<open>pygame.image.load\<close> cannot decode, \<open>Some (Some s)\<close> for a file that decodes
  to the surface \<open>s\<close>.
\<close>

type_synonym disk = "string \<Rightarrow> surface option option"

definition isfile :: "disk \<Rightarrow> string \<Rightarrow> bool" where
  "isfile d p = (d p \<noteq> None)"

definition image_load :: "disk \<Rightarrow> string \<Rightarrow> error + surface" where
  "image_load d p = (case d p of Some (Some s) \<Rightarrow> Inr s | _ \<Rightarrow> Inl PygameError)"

text \<open>
  The values the configuration getters return in \<^verbatim>\<open>__init__\<close> and
  \<^verbatim>\<open>_load_config\<close>, and the display size of \<^verbatim>\<open>pygame.display.Info()\<close>.
\<close>

record config =
  cfg_extensions :: "string list"
  cfg_duration :: int
  cfg_cache_size_limit :: int
  cfg_scale :: bool
  cfg_center :: bool
  cfg_bgcolor :: "int list"
  cfg_wait_time :: int
  cfg_display :: "nat \<times> nat"

text \<open>
  The attributes of \<^verbatim>\<open>ImagePlayer\<close>. \<open>image_cache\<close> is the \<^verbatim>\<open>OrderedDict\<close>:
  an association list in insertion order, the head being the entry
  \<^verbatim>\<open>popitem(last=False)\<close> removes. \<open>screen\<close> is the list of drawing calls made so
  far, \<open>decoded\<close> the list of paths handed to \<^verbatim>\<open>pygame.image.load\<close> so far. Times
  are the floats of \<^verbatim>\<open>time.monotonic\<close>, held as the rational numbers they denote.
\<close>

record player =
  extensions :: "string list"
  duration :: int
  screen_size :: "nat \<times> nat"
  bgcolor :: "int list"
  scale :: bool
  center :: bool
  wait_time :: int
  screen :: "draw_op list"
  bgimage :: "surface option \<times> int \<times> int"
  loop :: int
  start_time :: rat
  image_cache :: "(string \<times> surface) list"
  cache_size_limit :: int
  current_cache_size :: int
  decoded :: "string list"

definition ImagePlayer :: "config \<Rightarrow> surface option \<times> int \<times> int \<Rightarrow> player" where
  "ImagePlayer cfg bg =
     \<lparr> extensions = cfg_extensions cfg,
       duration = cfg_duration cfg,
       screen_size = cfg_display cfg,
       bgcolor = cfg_bgcolor cfg,
       scale = cfg_scale cfg,
       center = cfg_center cfg,
       wait_time = cfg_wait_time cfg,
       screen = [],
       bgimage = bg,
       loop = 0,
       start_time = 0,
       image_cache = [],
       cache_size_limit = cfg_cache_size_limit cfg * 1024 * 1024,
       current_cache_size = 0,
       decoded = [] \<rparr>"

subsection \<open>The cache\<close>

definition get_image_size :: "surface \<Rightarrow> int" where
  "get_image_size pyimage = int (surf_w pyimage * surf_h pyimage * bytesize pyimage)"

definition evict_cache :: "player \<Rightarrow> player" where
  "evict_cache s =
     (case image_cache s of
        [] \<Rightarrow> s
      | (_, evicted_image) # rest \<Rightarrow>
          s\<lparr> image_cache := rest,
             current_cache_size := current_cache_size s - get_image_size evicted_image \<rparr>)"

text \<open>The \<^verbatim>\<open>while\<close> loop of \<^verbatim>\<open>_add_to_cache\<close>.\<close>

partial_function (option) add_to_cache_loop :: "int \<Rightarrow> player \<Rightarrow> player option" where
  "add_to_cache_loop image_size s =
     (if current_cache_size s + image_size > cache_size_limit s
      then add_to_cache_loop image_size (evict_cache s)
      else Some s)"

definition add_to_cache :: "string \<Rightarrow> surface \<Rightarrow> player \<Rightarrow> player option" where
  "add_to_cache image_path pyimage s =
     (let image_size = get_image_size pyimage in
      case add_to_cache_loop image_size s of
        None \<Rightarrow> None
      | Some s' \<Rightarrow>
          Some (s'\<lparr> image_cache := AList.update image_path pyimage (image_cache s'),
                    current_cache_size := current_cache_size s' + image_size \<rparr>))"

text \<open>
  \<^verbatim>\<open>_load_image\<close>: \<open>None\<close> when the call does not return, otherwise the surface
  returned or the exception raised, and the attributes at that moment.
\<close>

definition load_image :: "disk \<Rightarrow> string \<Rightarrow> player \<Rightarrow> ((error + surface) \<times> player) option" where
  "load_image d image_path s =
     (case map_of (image_cache s) image_path of
        Some pyimage \<Rightarrow>
          Some (Inr pyimage,
                s\<lparr> image_cache := AList.delete image_path (image_cache s) @ [(image_path, pyimage)] \<rparr>)
      | None \<Rightarrow>
          (let s1 = s\<lparr> decoded := decoded s @ [image_path] \<rparr> in
           case image_load d image_path of
             Inl e \<Rightarrow> Some (Inl e, s1)
           | Inr pyimage \<Rightarrow>
               (case add_to_cache image_path pyimage s1 of
                  None \<Rightarrow> None
                | Some s2 \<Rightarrow> Some (Inr pyimage, s2))))"

subsection \<open>Floating-point arithmetic\<close>

text \<open>
  Python's \<^verbatim>\<open>float\<close> is IEEE binary64. A float is held as the rational number it
  denotes, and every operation rounds its exact result to the nearest number with a
  53-bit significand, ties going to the even significand: \<open>float_round\<close>. The true
  division of two \<^verbatim>\<open>int\<close>s is correctly rounded as well. The exponent range
  (overflow above \<open>2 ^ 1024\<close>, subnormal numbers below \<open>2 ^ -1022\<close>) is not part of
  the model: the operands here are screen and image dimensions, configured seconds and
  clock readings. The properties of the drawn frame bound all dimensions by \<open>2 ^ 53\<close>
  or less, so that every quotient and product they meet is within the exponent range and
  the model computes what binary64 computes.
\<close>

definition round_half_even :: "rat \<Rightarrow> int" where
  "round_half_even x =
     (let n = \<lfloor>x\<rfloor>; r = x - of_int n in
      if r < 1 / 2 then n
      else if 1 / 2 < r then n + 1
      else if even n then n else n + 1)"

text \<open>\<open>pow2 e\<close> is \<open>2\<close> to the power \<open>e\<close>, for any integer \<open>e\<close>.\<close>

definition pow2 :: "int \<Rightarrow> rat" where
  "pow2 e = (if 0 \<le> e then 2 ^ nat e else 1 / 2 ^ nat (- e))"

text \<open>For \<open>0 < x\<close>, the exponent \<open>e\<close> with \<open>pow2 e \<le> x < pow2 (e + 1)\<close>.\<close>

definition floor_log2 :: "rat \<Rightarrow> int" where
  "floor_log2 x = (if 1 \<le> x then bitlen \<lfloor>x\<rfloor> - 1 else - bitlen (\<lceil>1 / x\<rceil> - 1))"

definition float_round :: "rat \<Rightarrow> rat" where
  "float_round x =
     (if x = 0 then 0
      else let e = floor_log2 \<bar>x\<bar> - 52
           in sgn x * of_int (round_half_even (\<bar>x\<bar> / pow2 e)) * pow2 e)"

text \<open>\<^verbatim>\<open>a / b\<close> on two ints, and on two floats.\<close>

definition int_truediv :: "int \<Rightarrow> int \<Rightarrow> error + rat" where
  "int_truediv a b =
     (if b = 0 then Inl ZeroDivisionError else Inr (float_round (of_int a / of_int b)))"

definition float_truediv :: "rat \<Rightarrow> rat \<Rightarrow> error + rat" where
  "float_truediv x y = (if y = 0 then Inl ZeroDivisionError else Inr (float_round (x / y)))"

definition float_mul :: "rat \<Rightarrow> rat \<Rightarrow> rat" where
  "float_mul x y = float_round (x * y)"

definition float_sub :: "rat \<Rightarrow> rat \<Rightarrow> rat" where
  "float_sub x y = float_round (x - y)"

text \<open>\<^verbatim>\<open>float(n)\<close>, the conversion Python applies to the int operand of a mixed operation.\<close>

definition float_of_int :: "int \<Rightarrow> rat" where
  "float_of_int n = float_round (of_int n)"

text \<open>\<^verbatim>\<open>int(x)\<close> on a float truncates towards zero.\<close>

definition int_of_float :: "rat \<Rightarrow> int" where
  "int_of_float x = (if 0 \<le> x then \<lfloor>x\<rfloor> else \<lceil>x\<rceil>)"

subsection \<open>Drawing\<close>

definition blank_screen :: "bool \<Rightarrow> player \<Rightarrow> player" where
  "blank_screen flip s =
     s\<lparr> screen := screen s @ [Fill (bgcolor s)]
           @ (case bgimage s of
                (None, _, _) \<Rightarrow> []
              | (Some b, bx, by) \<Rightarrow> [Blit b bx by])
           @ (if flip then [Flip] else []) \<rparr>"

text \<open>\<^verbatim>\<open>pygame.transform.scale\<close> returns a new surface of the given size.\<close>

definition transform_scale :: "surface \<Rightarrow> int \<times> int \<Rightarrow> surface" where
  "transform_scale pyimage sz = pyimage\<lparr> surf_w := nat (fst sz), surf_h := nat (snd sz) \<rparr>"

text \<open>
  The body of \<^verbatim>\<open>play\<close> between loading the image and the blit (lines 98 to 122):
  the surface to draw and its position \<open>(image_x, image_y)\<close>. The two aspect ratios are
  computed before the flags are looked at, so a zero height raises whatever the flags.
\<close>

definition place_image :: "bool \<Rightarrow> bool \<Rightarrow> nat \<times> nat \<Rightarrow> surface \<Rightarrow> error + surface \<times> int \<times> int" where
  "place_image scale_flag center_flag sz pyimage =
     (let screen_w = int (fst sz); screen_h = int (snd sz);
          image_w = int (surf_w pyimage); image_h = int (surf_h pyimage)
      in case int_truediv screen_w screen_h of
           Inl e \<Rightarrow> Inl e
         | Inr screen_aspect_ratio \<Rightarrow>
       (case int_truediv image_w image_h of
           Inl e \<Rightarrow> Inl e
         | Inr photo_aspect_ratio \<Rightarrow>
       (case (if scale_flag then
                if screen_aspect_ratio < photo_aspect_ratio then
                  (case float_truediv (float_of_int screen_w) photo_aspect_ratio of
                     Inl e \<Rightarrow> Inl e
                   | Inr q \<Rightarrow>
                       Inr (screen_w, int_of_float q,
                            transform_scale pyimage (screen_w, int_of_float q)))
                else if photo_aspect_ratio < screen_aspect_ratio then
                  (let new_image_w = int_of_float (float_mul (float_of_int screen_h) photo_aspect_ratio)
                   in Inr (new_image_w, screen_h,
                           transform_scale pyimage (new_image_w, screen_h)))
                else Inr (image_w, image_h, transform_scale pyimage (screen_w, screen_h))
              else Inr (image_w, image_h, pyimage)) of
           Inl e \<Rightarrow> Inl e
         | Inr (new_image_w, new_image_h, scaled) \<Rightarrow>
             (let image_y = (if center_flag \<and> screen_aspect_ratio < photo_aspect_ratio
                             then (screen_h - new_image_h) div 2 else 0);
                  image_x = (if center_flag \<and> \<not> screen_aspect_ratio < photo_aspect_ratio
                                \<and> photo_aspect_ratio < screen_aspect_ratio
                             then (screen_w - new_image_w) div 2 else 0)
              in Inr (scaled, image_x, image_y)))))"

subsection \<open>Playback\<close>

text \<open>
  \<^verbatim>\<open>play(image, loop)\<close>. \<open>resolve_loop\<close> is the loop count of its first four
  lines, before the zero is replaced; \<open>now\<close> is the reading of \<^verbatim>\<open>monotonic()\<close> in
  its last line. The result is \<open>None\<close> when the call does not return, otherwise the
  exception raised (if any) and the attributes.
\<close>

definition resolve_loop :: "image \<Rightarrow> int option \<Rightarrow> int" where
  "resolve_loop img lp = (case lp of None \<Rightarrow> repeats img | Some l \<Rightarrow> l)"

definition play :: "disk \<Rightarrow> rat \<Rightarrow> image \<Rightarrow> int option \<Rightarrow> player \<Rightarrow> (error option \<times> player) option" where
  "play d now img lp s =
     (let s1 = s\<lparr> loop := resolve_loop img lp \<rparr>;
          s2 = (if loop s1 = 0 then s1\<lparr> loop := 1 \<rparr> else s1);
          image_path = filename img
      in if image_path \<noteq> [] \<and> isfile d image_path then
           (case load_image d image_path (blank_screen False s2) of
              None \<Rightarrow> None
            | Some (Inl e, s3) \<Rightarrow> Some (Some e, s3)
            | Some (Inr pyimage, s3) \<Rightarrow>
                (case place_image (scale s3) (center s3) (screen_size s3) pyimage of
                   Inl e \<Rightarrow> Some (Some e, s3)
                 | Inr (scaled, image_x, image_y) \<Rightarrow>
                     Some (None, s3\<lparr> screen := screen s3 @ [Blit scaled image_x image_y, Flip],
                                     start_time := now \<rparr>)))
         else Some (None, s2\<lparr> start_time := now \<rparr>))"

text \<open>\<^verbatim>\<open>is_playing()\<close>; \<open>now\<close> is the reading of \<^verbatim>\<open>monotonic()\<close>.\<close>

definition is_playing :: "rat \<Rightarrow> player \<Rightarrow> bool \<times> player" where
  "is_playing now s =
     (if loop s \<le> - 1 then (True, s)
      else let playing = (float_sub now (start_time s) < of_int (duration s * loop s))
           in if \<not> playing \<and> wait_time s > 0 then (playing, blank_screen True s)
              else (playing, s))"

definition stop :: "int \<Rightarrow> player \<Rightarrow> player" where
  "stop block_timeout_sec s =
     (let s1 = blank_screen True s
      in s1\<lparr> start_time := float_sub (start_time s1) (float_of_int (duration s1 * loop s1)) \<rparr>)"

definition can_loop_count :: bool where
  "can_loop_count = True"

definition create_player :: "config \<Rightarrow> surface option \<times> int \<times> int \<Rightarrow> player" where
  "create_player cfg bg = ImagePlayer cfg bg"

subsection \<open>Sequences of cache operations\<close>

text \<open>The sum of the estimated sizes of the cached surfaces.\<close>

definition cache_sum :: "(string \<times> surface) list \<Rightarrow> int" where
  "cache_sum xs = sum_list (map (\<lambda>(p, img). get_image_size img) xs)"

text \<open>
  The cache-state invariant: the recorded size is the sum of the entries' sizes, and it is
  within the limit unless exactly one entry is cached whose own size exceeds the limit.
\<close>

definition cache_invariant :: "player \<Rightarrow> bool" where
  "cache_invariant s =
     (current_cache_size s = cache_sum (image_cache s) \<and>
      (current_cache_size s \<le> cache_size_limit s \<or>
       (case image_cache s of
          [(p, pyimage)] \<Rightarrow> cache_size_limit s < get_image_size pyimage
        | _ \<Rightarrow> False)))"

text \<open>
  What the code maintains: distinct keys, the recorded size is the sum of the entries'
  sizes, and the recorded size is within the limit.
\<close>

definition cache_ok :: "player \<Rightarrow> bool" where
  "cache_ok s =
     (distinct (map fst (image_cache s)) \<and>
      current_cache_size s = cache_sum (image_cache s) \<and>
      current_cache_size s \<le> cache_size_limit s)"

text \<open>
  A sequence of calls of \<^verbatim>\<open>_load_image\<close> (each with the file system of its moment)
  and \<^verbatim>\<open>_evict_cache\<close>. A call of \<^verbatim>\<open>_load_image\<close> that raises leaves the player
  to its caller, which goes on; a call that does not return ends the run.
\<close>

datatype cache_op = GetOrLoad disk string | EvictOne

fun run_cache_ops :: "cache_op list \<Rightarrow> player \<Rightarrow> player option" where
  "run_cache_ops [] s = Some s"
| "run_cache_ops (GetOrLoad d p # ops) s =
     (case load_image d p s of
        None \<Rightarrow> None
      | Some (r, s') \<Rightarrow> run_cache_ops ops s')"
| "run_cache_ops (EvictOne # ops) s = run_cache_ops ops (evict_cache s)"

text \<open>\<open>n\<close> calls of \<^verbatim>\<open>_load_image\<close> for one path, with what each call returned.\<close>

fun load_image_times :: "nat \<Rightarrow> disk \<Rightarrow> string \<Rightarrow> player \<Rightarrow> ((error + surface) list \<times> player) option" where
  "load_image_times 0 d p s = Some ([], s)"
| "load_image_times (Suc n) d p s =
     (case load_image d p s of
        None \<Rightarrow> None
      | Some (r, s') \<Rightarrow>
          (case load_image_times n d p s' of
             None \<Rightarrow> None
           | Some (rs, s'') \<Rightarrow> Some (r # rs, s'')))"

subsection \<open>Notions used in the properties of \<^verbatim>\<open>play\<close>\<close>

text \<open>
  A surface drawn at \<open>(image_x, image_y)\<close> lies within a screen of size \<open>sz\<close>:
  nothing of it is cropped or clipped.
\<close>

definition fully_visible :: "nat \<times> nat \<Rightarrow> surface \<Rightarrow> int \<Rightarrow> int \<Rightarrow> bool" where
  "fully_visible sz drawn image_x image_y =
     (0 \<le> image_x \<and> 0 \<le> image_y \<and>
      image_x + int (surf_w drawn) \<le> int (fst sz) \<and>
      image_y + int (surf_h drawn) \<le> int (snd sz))"

text \<open>
  The surface \<^verbatim>\<open>_load_image\<close> hands back for a path, if it hands one back: the cached
  one, and the one the file decodes to when none is cached.
\<close>

definition loads_as :: "disk \<Rightarrow> player \<Rightarrow> string \<Rightarrow> surface \<Rightarrow> bool" where
  "loads_as d s p pyimage =
     (case map_of (image_cache s) p of
        Some cached \<Rightarrow> cached = pyimage
      | None \<Rightarrow> d p = Some (Some pyimage))"

subsection \<open>Example inputs\<close>

text \<open>
  A configuration with a cache of four megabytes on an 800 by 600 display, three images
  of two megabytes each, and a file system holding them and some others.
\<close>

definition example_config :: config where
  "example_config =
     \<lparr> cfg_extensions = [''png'', ''jpg''], cfg_duration = 10, cfg_cache_size_limit = 4,
       cfg_scale = True, cfg_center = True, cfg_bgcolor = [0, 0, 0], cfg_wait_time = 0,
       cfg_display = (800, 600) \<rparr>"

definition two_mb :: "nat \<Rightarrow> surface" where
  "two_mb i = \<lparr> pixels = i, surf_w = 1024, surf_h = 512, bytesize = 4 \<rparr>"

definition wide :: surface where
  "wide = \<lparr> pixels = 4, surf_w = 1000, surf_h = 500, bytesize = 4 \<rparr>"

definition tall :: surface where
  "tall = \<lparr> pixels = 5, surf_w = 400, surf_h = 800, bytesize = 4 \<rparr>"

definition same :: surface where
  "same = \<lparr> pixels = 6, surf_w = 400, surf_h = 300, bytesize = 4 \<rparr>"

definition example_disk :: disk where
  "example_disk p =
     (if p = ''a.png'' then Some (Some (two_mb 1))
      else if p = ''b.png'' then Some (Some (two_mb 2))
      else if p = ''c.png'' then Some (Some (two_mb 3))
      else if p = ''wide.png'' then Some (Some wide)
      else if p = ''tall.png'' then Some (Some tall)
      else if p = ''same.png'' then Some (Some same)
      else if p = ''broken.png'' then Some None
      else None)"

definition example_player :: player where
  "example_player = ImagePlayer example_config (None, 0, 0)"

section \<open>Properties\<close>

subsection \<open>The eviction loop\<close>

lemma add_to_cache_loop_done:
  "\<not> current_cache_size s + image_size > cache_size_limit s \<Longrightarrow> add_to_cache_loop image_size s = Some s"
  by (subst add_to_cache_loop.simps) simp

lemma add_to_cache_loop_step:
  "current_cache_size s + image_size > cache_size_limit s \<Longrightarrow>
   add_to_cache_loop image_size s = add_to_cache_loop image_size (evict_cache s)"
  by (subst add_to_cache_loop.simps) simp

lemma add_to_cache_loop_stuck_aux:
  assumes "add_to_cache_loop image_size s = Some s'"
  shows "\<not> (image_cache s = [] \<and> current_cache_size s + image_size > cache_size_limit s)"
proof (rule add_to_cache_loop.raw_induct
    [where P = "\<lambda>n t t'. \<not> (image_cache t = [] \<and> current_cache_size t + n > cache_size_limit t)",
      OF _ assms])
  fix f n t t'
  assume IH: "\<And>a b y. f a b = Some y \<Longrightarrow>
                \<not> (image_cache b = [] \<and> current_cache_size b + a > cache_size_limit b)"
    and eq: "(if cache_size_limit t < current_cache_size t + n then f n (evict_cache t) else Some t) = Some t'"
  show "\<not> (image_cache t = [] \<and> current_cache_size t + n > cache_size_limit t)"
  proof
    assume st: "image_cache t = [] \<and> cache_size_limit t < current_cache_size t + n"
    then have "evict_cache t = t" by (simp add: evict_cache_def)
    with st eq have "f n t = Some t'" by simp
    from IH[OF this] st show False by simp
  qed
qed

lemma add_to_cache_loop_stuck:
  "image_cache s = [] \<Longrightarrow> current_cache_size s + image_size > cache_size_limit s \<Longrightarrow>
   add_to_cache_loop image_size s = None"
  using add_to_cache_loop_stuck_aux [of image_size s] by (cases "add_to_cache_loop image_size s") auto

lemma cache_sum_nonneg: "0 \<le> cache_sum xs"
  by (induction xs) (auto simp: cache_sum_def get_image_size_def)

lemma add_to_cache_loop_returns:
  "current_cache_size s = cache_sum (image_cache s) \<Longrightarrow> image_size \<le> cache_size_limit s \<Longrightarrow>
   \<exists>k. add_to_cache_loop image_size s =
        Some (s\<lparr> image_cache := drop k (image_cache s),
                  current_cache_size := cache_sum (drop k (image_cache s)) \<rparr>)
      \<and> cache_sum (drop k (image_cache s)) + image_size \<le> cache_size_limit s
      \<and> (\<forall>j < k. cache_sum (drop j (image_cache s)) + image_size > cache_size_limit s)"
proof (induction "image_cache s" arbitrary: s)
  case Nil
  then have "add_to_cache_loop image_size s = Some s"
    by (simp add: add_to_cache_loop_done cache_sum_def)
  with Nil show ?case by (intro exI[of _ 0]) (simp add: cache_sum_def)
next
  case (Cons e rest)
  show ?case
  proof (cases "current_cache_size s + image_size > cache_size_limit s")
    case False
    then have "add_to_cache_loop image_size s = Some s"
      by (simp add: add_to_cache_loop_done)
    with False Cons(3) show ?thesis by (intro exI[of _ 0]) simp
  next
    case True
    obtain p img where e: "e = (p, img)" by (cases e)
    let ?s1 = "evict_cache s"
    have s1: "?s1 = s\<lparr> image_cache := rest, current_cache_size := cache_sum rest \<rparr>"
      using Cons(2)[symmetric] Cons(3) e by (simp add: evict_cache_def cache_sum_def)
    have "rest = image_cache ?s1" by (simp add: s1)
    moreover have "current_cache_size ?s1 = cache_sum (image_cache ?s1)" by (simp add: s1)
    moreover have "image_size \<le> cache_size_limit ?s1" using Cons(4) by (simp add: s1)
    ultimately obtain k where k:
      "add_to_cache_loop image_size ?s1 =
        Some (?s1\<lparr> image_cache := drop k (image_cache ?s1),
                  current_cache_size := cache_sum (drop k (image_cache ?s1)) \<rparr>)"
      "cache_sum (drop k (image_cache ?s1)) + image_size \<le> cache_size_limit ?s1"
      "\<forall>j < k. cache_sum (drop j (image_cache ?s1)) + image_size > cache_size_limit ?s1"
      using Cons(1) by blast
    have step: "add_to_cache_loop image_size s = add_to_cache_loop image_size ?s1"
      using True by (rule add_to_cache_loop_step)
    have dr: "drop (Suc k) (image_cache s) = drop k rest" using Cons(2)[symmetric] by simp
    show ?thesis
    proof (intro exI[of _ "Suc k"] conjI allI impI)
      show "add_to_cache_loop image_size s =
        Some (s\<lparr> image_cache := drop (Suc k) (image_cache s),
                  current_cache_size := cache_sum (drop (Suc k) (image_cache s)) \<rparr>)"
        using k(1) by (simp add: step dr) (simp add: s1)
      show "cache_sum (drop (Suc k) (image_cache s)) + image_size \<le> cache_size_limit s"
        using k(2) by (simp add: dr) (simp add: s1)
      fix j assume "j < Suc k"
      show "cache_sum (drop j (image_cache s)) + image_size > cache_size_limit s"
      proof (cases j)
        case 0
        with True Cons(3) show ?thesis by simp
      next
        case (Suc j')
        with \<open>j < Suc k\<close> have "j' < k" by simp
        with k(3) have "cache_sum (drop j' (image_cache ?s1)) + image_size > cache_size_limit ?s1" by blast
        then show ?thesis using Suc Cons(2)[symmetric] by (simp add: s1)
      qed
    qed
  qed
qed

subsection \<open>The cache invariant\<close>

lemma cache_sum_Nil [simp]: "cache_sum [] = 0"
  by (simp add: cache_sum_def)

lemma cache_sum_Cons [simp]: "cache_sum ((p, img) # xs) = get_image_size img + cache_sum xs"
  by (simp add: cache_sum_def)

lemma cache_sum_append [simp]: "cache_sum (xs @ ys) = cache_sum xs + cache_sum ys"
  by (simp add: cache_sum_def)

lemma get_image_size_nonneg: "0 \<le> get_image_size img"
  by (simp add: get_image_size_def)

lemma cache_ok_invariant: "cache_ok s \<Longrightarrow> cache_invariant s"
  by (simp add: cache_ok_def cache_invariant_def)

lemma cache_ok_init: "0 \<le> cfg_cache_size_limit cfg \<Longrightarrow> cache_ok (ImagePlayer cfg bg)"
  by (simp add: cache_ok_def ImagePlayer_def)

lemma cache_ok_evict: "cache_ok s \<Longrightarrow> cache_ok (evict_cache s)"
proof (cases "image_cache s")
  case Nil
  then show "cache_ok s \<Longrightarrow> cache_ok (evict_cache s)" by (simp add: evict_cache_def)
next
  case (Cons e rest)
  obtain p img where e: "e = (p, img)" by (cases e)
  assume "cache_ok s"
  then show "cache_ok (evict_cache s)"
    using Cons e get_image_size_nonneg[of img] by (simp add: cache_ok_def evict_cache_def)
qed

lemma cache_sum_delete:
  "distinct (map fst xs) \<Longrightarrow> map_of xs p = Some img \<Longrightarrow>
   cache_sum (AList.delete p xs) + get_image_size img = cache_sum xs"
proof (induction xs)
  case Nil
  then show ?case by simp
next
  case (Cons e xs)
  obtain q im where e: "e = (q, im)" by (cases e)
  show ?case
  proof (cases "q = p")
    case True
    with Cons(2) e have "p \<notin> fst ` set xs" by simp
    then have "AList.delete p xs = xs" by (rule delete_id)
    with True Cons(3) e show ?thesis by simp
  next
    case False
    with Cons e show ?thesis by simp
  qed
qed

lemma update_absent: "p \<notin> fst ` set xs \<Longrightarrow> AList.update p v xs = xs @ [(p, v)]"
  by (induction xs) auto

lemma cache_ok_load:
  assumes "cache_ok s" "load_image d p s = Some (r, s')"
  shows "cache_ok s'"
proof (cases "map_of (image_cache s) p")
  case (Some img)
  with assms(2) have s': "s' = s\<lparr> image_cache := AList.delete p (image_cache s) @ [(p, img)] \<rparr>"
    by (simp add: load_image_def)
  have "distinct (map fst (AList.delete p (image_cache s) @ [(p, img)]))"
    using assms(1) delete_notin_dom[of p "image_cache s"] by (simp add: cache_ok_def distinct_delete)
  moreover have "cache_sum (AList.delete p (image_cache s) @ [(p, img)]) = cache_sum (image_cache s)"
    using cache_sum_delete[of "image_cache s" p img] assms(1) Some by (simp add: cache_ok_def)
  ultimately show ?thesis using assms(1) by (simp add: s' cache_ok_def)
next
  case None
  let ?s1 = "s\<lparr> decoded := decoded s @ [p] \<rparr>"
  show ?thesis
  proof (cases "image_load d p")
    case (Inl e)
    with None assms show ?thesis by (auto simp: load_image_def cache_ok_def)
  next
    case (Inr img)
    let ?n = "get_image_size img"
    from None Inr assms(2) obtain t where
      t: "add_to_cache_loop ?n ?s1 = Some t"
      and s': "s' = t\<lparr> image_cache := AList.update p img (image_cache t),
                       current_cache_size := current_cache_size t + ?n \<rparr>"
      by (auto simp: load_image_def add_to_cache_def Let_def split: option.splits)
    have le: "?n \<le> cache_size_limit ?s1"
    proof (rule ccontr)
      assume "\<not> ?n \<le> cache_size_limit ?s1"
      then have big: "cache_size_limit s < ?n" by simp
      have "\<And>u. cache_ok u \<Longrightarrow> cache_size_limit u = cache_size_limit s \<Longrightarrow> add_to_cache_loop ?n u = None"
      proof -
        fix u show "cache_ok u \<Longrightarrow> cache_size_limit u = cache_size_limit s \<Longrightarrow> add_to_cache_loop ?n u = None"
        proof (induction "image_cache u" arbitrary: u)
          case Nil
          then show ?case using big by (intro add_to_cache_loop_stuck) (auto simp: cache_ok_def)
        next
          case (Cons e rest)
          have "0 \<le> current_cache_size u" using Cons(3) cache_sum_nonneg by (simp add: cache_ok_def)
          then have gt: "cache_size_limit u < current_cache_size u + ?n" using big Cons(4) by simp
          have "add_to_cache_loop ?n (evict_cache u) = None"
            using Cons(2)[symmetric] Cons(4)
            by (intro Cons(1) cache_ok_evict Cons(3)) (auto simp: evict_cache_def split: prod.splits)
          then show ?case using add_to_cache_loop_step[OF gt] by simp
        qed
      qed
      from this[of ?s1] assms(1) t show False by (simp add: cache_ok_def)
    qed
    have cur: "current_cache_size ?s1 = cache_sum (image_cache ?s1)" using assms(1) by (simp add: cache_ok_def)
    from add_to_cache_loop_returns[OF cur le] t obtain k where
      tk: "t = ?s1\<lparr> image_cache := drop k (image_cache s), current_cache_size := cache_sum (drop k (image_cache s)) \<rparr>"
      and fits: "cache_sum (drop k (image_cache s)) + ?n \<le> cache_size_limit s"
      by auto
    have "p \<notin> fst ` set (image_cache s)" using None by (simp add: map_of_eq_None_iff)
    then have notin: "p \<notin> fst ` set (drop k (image_cache s))" using set_drop_subset[of k "image_cache s"] by blast
    have dist: "distinct (map fst (drop k (image_cache s)))"
      using assms(1) by (simp add: cache_ok_def distinct_drop drop_map[symmetric])
    show ?thesis using notin dist fits
      by (auto simp: s' tk cache_ok_def update_absent)
  qed
qed

lemma run_cache_ops_ok: "cache_ok s \<Longrightarrow> run_cache_ops ops s = Some s' \<Longrightarrow> cache_ok s'"
proof (induction ops s arbitrary: s' rule: run_cache_ops.induct)
  case (1 s)
  then show ?case by simp
next
  case (2 d p ops s)
  then show ?case by (auto split: option.splits dest: cache_ok_load)
next
  case (3 ops s)
  then show ?case by (auto dest: cache_ok_evict)
qed

text \<open>With a negative limit the cache stays empty: no insertion ever returns.\<close>

lemma load_image_negative_limit:
  assumes "image_cache s = []" "current_cache_size s = 0" "cache_size_limit s < 0"
    and "load_image d p s = Some (r, s')"
  shows "image_cache s' = [] \<and> current_cache_size s' = 0 \<and> cache_size_limit s' < 0"
proof (cases "image_load d p")
  case (Inl e)
  with assms show ?thesis by (auto simp: load_image_def)
next
  case (Inr pyimage)
  let ?s1 = "s\<lparr> decoded := decoded s @ [p] \<rparr>"
  have "cache_size_limit ?s1 < current_cache_size ?s1 + get_image_size pyimage"
    using assms(2,3) get_image_size_nonneg[of pyimage] by simp
  moreover have "image_cache ?s1 = []" using assms(1) by simp
  ultimately have "add_to_cache_loop (get_image_size pyimage) ?s1 = None"
    by (intro add_to_cache_loop_stuck)
  with Inr assms(1,4) show ?thesis
    by (simp add: load_image_def add_to_cache_def)
qed

lemma run_cache_ops_negative_limit:
  "image_cache s = [] \<Longrightarrow> current_cache_size s = 0 \<Longrightarrow> cache_size_limit s < 0 \<Longrightarrow>
   run_cache_ops ops s = Some s' \<Longrightarrow> image_cache s' = [] \<and> current_cache_size s' = 0"
proof (induction ops s arbitrary: s' rule: run_cache_ops.induct)
  case (1 s)
  then show ?case by simp
next
  case (2 d p ops s)
  from "2.prems"(4) obtain r t where ld: "load_image d p s = Some (r, t)"
    and run: "run_cache_ops ops t = Some s'"
    by (auto split: option.splits)
  from load_image_negative_limit[OF "2.prems"(1-3) ld]
  have t: "image_cache t = []" "current_cache_size t = 0" "cache_size_limit t < 0" by blast+
  from "2.IH"[OF ld refl t run] show ?case .
next
  case (3 ops s)
  have ev: "evict_cache s = s" using "3.prems"(1) by (simp add: evict_cache_def)
  from "3.IH"[of s'] "3.prems" ev show ?case by simp
qed

subsection \<open>What the cache calls leave alone\<close>

lemma add_to_cache_loop_frame:
  assumes "add_to_cache_loop image_size s = Some s'"
  shows "\<exists>c n. s' = s\<lparr> image_cache := c, current_cache_size := n \<rparr>"
proof (rule add_to_cache_loop.raw_induct
    [where P = "\<lambda>k t t'. \<exists>c n. t' = t\<lparr> image_cache := c, current_cache_size := n \<rparr>",
      OF _ assms])
  fix f k t t'
  assume IH: "\<And>a b y. f a b = Some y \<Longrightarrow> \<exists>c n. y = b\<lparr> image_cache := c, current_cache_size := n \<rparr>"
    and eq: "(if cache_size_limit t < current_cache_size t + k then f k (evict_cache t) else Some t) = Some t'"
  show "\<exists>c n. t' = t\<lparr> image_cache := c, current_cache_size := n \<rparr>"
  proof (cases "cache_size_limit t < current_cache_size t + k")
    case False
    with eq have "t' = t" by simp
    then have "t' = t\<lparr> image_cache := image_cache t, current_cache_size := current_cache_size t \<rparr>" by simp
    then show ?thesis by blast
  next
    case True
    with eq have "f k (evict_cache t) = Some t'" by simp
    from IH[OF this] obtain c n where
      t': "t' = (evict_cache t)\<lparr> image_cache := c, current_cache_size := n \<rparr>" by blast
    have "\<exists>c0 n0. evict_cache t = t\<lparr> image_cache := c0, current_cache_size := n0 \<rparr>"
    proof (cases "image_cache t")
      case Nil
      then have "evict_cache t = t\<lparr> image_cache := image_cache t, current_cache_size := current_cache_size t \<rparr>"
        by (simp add: evict_cache_def)
      then show ?thesis by blast
    next
      case (Cons e rest)
      then show ?thesis by (cases e) (auto simp: evict_cache_def)
    qed
    then obtain c0 n0 where "evict_cache t = t\<lparr> image_cache := c0, current_cache_size := n0 \<rparr>" by blast
    with t' have "t' = t\<lparr> image_cache := c, current_cache_size := n \<rparr>" by simp
    then show ?thesis by blast
  qed
qed

lemma load_image_frame:
  assumes "load_image d p s = Some (r, s')"
  shows "\<exists>c n l. s' = s\<lparr> image_cache := c, current_cache_size := n, decoded := l \<rparr>"
proof (cases "map_of (image_cache s) p")
  case (Some img)
  with assms have "s' = s\<lparr> image_cache := AList.delete p (image_cache s) @ [(p, img)],
       current_cache_size := current_cache_size s, decoded := decoded s \<rparr>"
    by (auto simp: load_image_def)
  then show ?thesis by blast
next
  case None
  show ?thesis
  proof (cases "image_load d p")
    case (Inl e)
    with None assms have "s' = s\<lparr> image_cache := image_cache s,
       current_cache_size := current_cache_size s, decoded := decoded s @ [p] \<rparr>"
      by (auto simp: load_image_def)
    then show ?thesis by blast
  next
    case (Inr img)
    with None assms obtain t where
      t: "add_to_cache_loop (get_image_size img) (s\<lparr> decoded := decoded s @ [p] \<rparr>) = Some t"
      and s': "s' = t\<lparr> image_cache := AList.update p img (image_cache t),
                       current_cache_size := current_cache_size t + get_image_size img \<rparr>"
      by (auto simp: load_image_def add_to_cache_def Let_def split: option.splits)
    from add_to_cache_loop_frame[OF t] obtain c n where
      "t = s\<lparr> decoded := decoded s @ [p], image_cache := c, current_cache_size := n \<rparr>" by blast
    with s' have "s' = s\<lparr> image_cache := AList.update p img c,
        current_cache_size := n + get_image_size img, decoded := decoded s @ [p] \<rparr>" by simp
    then show ?thesis by blast
  qed
qed


lemma play_skip:
  "filename img = [] \<or> \<not> isfile d (filename img) \<Longrightarrow>
   play d now img lp s =
     Some (None, s\<lparr> loop := (if resolve_loop img lp = 0 then 1 else resolve_loop img lp),
                     start_time := now \<rparr>)"
  by (auto simp: play_def resolve_loop_def Let_def)

subsection \<open>Rounding\<close>

lemma pow2_powi: "pow2 e = 2 powi e"
  by (simp add: pow2_def power_int_def power_one_over inverse_eq_divide)

lemma pow2_pos [simp]: "0 < pow2 e"
  by (simp add: pow2_powi)

lemma pow2_add: "pow2 (a + b) = pow2 a * pow2 b"
  by (simp add: pow2_powi power_int_add)

lemma pow2_diff: "pow2 (a - b) = pow2 a / pow2 b"
  by (simp add: pow2_powi power_int_diff)

lemma pow2_nat: "pow2 (int n) = 2 ^ n"
  by (simp add: pow2_def)

lemma pow2_mono: "a \<le> b \<Longrightarrow> pow2 a \<le> pow2 b"
  by (simp add: pow2_powi power_int_increasing)

lemma pow2_less_cancel: "pow2 a < pow2 b \<Longrightarrow> a < b"
  using pow2_mono[of b a] by (cases "a < b") auto

lemma floor_log2_bounds:
  assumes "0 < x"
  shows "pow2 (floor_log2 x) \<le> x" and "x < pow2 (floor_log2 x + 1)"
proof -
  have "pow2 (floor_log2 x) \<le> x \<and> x < pow2 (floor_log2 x + 1)"
  proof (cases "1 \<le> x")
    case True
    let ?n = "\<lfloor>x\<rfloor>"
    let ?b = "bitlen ?n"
    have n: "0 < ?n" using True by simp
    from bitlen_bounds[OF n] have lo: "2 ^ nat (?b - 1) \<le> ?n" and hi: "?n < 2 ^ nat ?b" by auto
    have b: "1 \<le> ?b" using n bitlen_eq_zero_iff[of ?n] bitlen_nonneg[of ?n] by (cases "?b = 0") auto
    have e: "floor_log2 x = ?b - 1" using True by (simp add: floor_log2_def)
    have "pow2 (?b - 1) = 2 ^ nat (?b - 1)" using b by (simp add: pow2_def)
    also have "\<dots> = of_int (2 ^ nat (?b - 1))" by simp
    also have "\<dots> \<le> of_int ?n" using lo by (simp only: of_int_le_iff)
    also have "\<dots> \<le> x" by simp
    finally have 1: "pow2 (floor_log2 x) \<le> x" by (simp add: e)
    have "?n + 1 \<le> 2 ^ nat ?b" using hi by simp
    then have "(of_int (?n + 1) :: rat) \<le> of_int (2 ^ nat ?b)" by (simp only: of_int_le_iff)
    moreover have "x < of_int (?n + 1)" by linarith
    ultimately have "x < of_int (2 ^ nat ?b)" by linarith
    also have "\<dots> = pow2 ?b" using b by (simp add: pow2_def)
    finally have 2: "x < pow2 (floor_log2 x + 1)" by (simp add: e)
    from 1 2 show ?thesis by blast
  next
    case False
    let ?y = "1 / x"
    let ?m = "\<lceil>?y\<rceil> - 1"
    let ?b = "bitlen ?m"
    have y: "1 < ?y" using False assms by simp
    have m: "0 < ?m" using y by linarith
    from bitlen_bounds[OF m] have lo: "2 ^ nat (?b - 1) \<le> ?m" and hi: "?m < 2 ^ nat ?b" by auto
    have b: "1 \<le> ?b" using m bitlen_eq_zero_iff[of ?m] bitlen_nonneg[of ?m] by (cases "?b = 0") auto
    have e: "floor_log2 x = - ?b" using False by (simp add: floor_log2_def)
    have "?m + 1 \<le> 2 ^ nat ?b" using hi by simp
    then have "(of_int (?m + 1) :: rat) \<le> of_int (2 ^ nat ?b)" by (simp only: of_int_le_iff)
    moreover have "?y \<le> of_int (?m + 1)" by simp
    ultimately have "?y \<le> of_int (2 ^ nat ?b)" by linarith
    then have yb: "?y \<le> 2 ^ nat ?b" by simp
    have "1 / 2 ^ nat ?b \<le> x"
      using yb assms by (simp add: field_simps)
    then have 1: "pow2 (floor_log2 x) \<le> x" using b by (simp add: e pow2_def)
    have "(of_int (2 ^ nat (?b - 1)) :: rat) \<le> of_int ?m" using lo by (simp only: of_int_le_iff)
    moreover have "of_int ?m < ?y" by linarith
    ultimately have "(of_int (2 ^ nat (?b - 1)) :: rat) < ?y" by linarith
    then have "2 ^ nat (?b - 1) < ?y" by simp
    then have lt: "x < 1 / 2 ^ nat (?b - 1)" using assms by (simp add: field_simps)
    have "pow2 (- ?b + 1) = 1 / 2 ^ nat (?b - 1)"
      using b by (cases "?b = 1") (auto simp: pow2_def)
    with lt have 2: "x < pow2 (floor_log2 x + 1)" by (simp add: e)
    from 1 2 show ?thesis by blast
  qed
  then show "pow2 (floor_log2 x) \<le> x" and "x < pow2 (floor_log2 x + 1)" by blast+
qed

lemma floor_log2_unique:
  assumes "pow2 e \<le> x" "x < pow2 (e + 1)"
  shows "floor_log2 x = e"
proof -
  have x: "0 < x" using assms(1) pow2_pos[of e] by linarith
  from floor_log2_bounds[OF x] assms
  have "pow2 e < pow2 (floor_log2 x + 1)" "pow2 (floor_log2 x) < pow2 (e + 1)" by linarith+
  then have "e < floor_log2 x + 1" "floor_log2 x < e + 1" by (auto dest: pow2_less_cancel)
  then show ?thesis by simp
qed

lemma floor_log2_mono:
  assumes "0 < x" "x \<le> y"
  shows "floor_log2 x \<le> floor_log2 y"
proof -
  have y: "0 < y" using assms by simp
  from floor_log2_bounds(1)[OF assms(1)] floor_log2_bounds(2)[OF y] assms(2)
  have "pow2 (floor_log2 x) < pow2 (floor_log2 y + 1)" by linarith
  then show ?thesis by (auto dest: pow2_less_cancel)
qed

lemma round_half_even_bounds: "\<lfloor>x\<rfloor> \<le> round_half_even x" "round_half_even x \<le> \<lfloor>x\<rfloor> + 1"
  by (auto simp: round_half_even_def Let_def)

lemma round_half_even_of_int [simp]: "round_half_even (of_int n) = n"
  by (simp add: round_half_even_def)

lemma round_half_even_mono:
  assumes "x \<le> y"
  shows "round_half_even x \<le> round_half_even y"
proof (cases "\<lfloor>x\<rfloor> = \<lfloor>y\<rfloor>")
  case True
  then show ?thesis using assms by (auto simp: round_half_even_def Let_def)
next
  case False
  with assms have "\<lfloor>x\<rfloor> < \<lfloor>y\<rfloor>" using floor_mono[OF assms] by simp
  then show ?thesis using round_half_even_bounds(2)[of x] round_half_even_bounds(1)[of y] by linarith
qed

lemma round_half_even_numeral [simp]: "round_half_even (numeral n) = numeral n"
  using round_half_even_of_int[of "numeral n"] by simp

lemma pow2_nonneg [simp]: "0 \<le> pow2 e"
  using pow2_pos[of e] by linarith

lemma pow2_split52: "pow2 e = 2 ^ 52 * pow2 (e - 52)"
proof -
  have "e = 52 + (e - 52)" by simp
  then have "pow2 e = pow2 (52 + (e - 52))" by (rule arg_cong)
  also have "\<dots> = pow2 52 * pow2 (e - 52)" by (rule pow2_add)
  also have "pow2 52 = 2 ^ 52" by (simp add: pow2_def)
  finally show ?thesis .
qed

lemma pow2_split53: "pow2 (e + 1) = 2 ^ 53 * pow2 (e - 52)"
proof -
  have "e + 1 = 53 + (e - 52)" by simp
  then have "pow2 (e + 1) = pow2 (53 + (e - 52))" by (rule arg_cong)
  also have "\<dots> = pow2 53 * pow2 (e - 52)" by (rule pow2_add)
  also have "pow2 53 = 2 ^ 53" by (simp add: pow2_def)
  finally show ?thesis .
qed

lemma float_round_pos:
  "0 < x \<Longrightarrow> float_round x =
     of_int (round_half_even (x / pow2 (floor_log2 x - 52))) * pow2 (floor_log2 x - 52)"
  by (simp add: float_round_def Let_def)

lemma significand_bounds:
  assumes "0 < x"
  shows "2 ^ 52 \<le> round_half_even (x / pow2 (floor_log2 x - 52))"
    and "round_half_even (x / pow2 (floor_log2 x - 52)) \<le> 2 ^ 53"
proof -
  let ?e = "floor_log2 x"
  let ?u = "pow2 (?e - 52)"
  have u: "0 < ?u" by simp
  have "2 ^ 52 * ?u \<le> x"
    using floor_log2_bounds(1)[OF assms] by (simp only: pow2_split52[symmetric])
  then have "2 ^ 52 \<le> x / ?u" using u by (simp only: pos_le_divide_eq)
  from round_half_even_mono[OF this] show "2 ^ 52 \<le> round_half_even (x / ?u)" by simp
  have "x \<le> 2 ^ 53 * ?u"
    using floor_log2_bounds(2)[OF assms] by (simp only: pow2_split53[symmetric])
  then have "x / ?u \<le> 2 ^ 53" using u by (simp only: pos_divide_le_eq)
  from round_half_even_mono[OF this] show "round_half_even (x / ?u) \<le> 2 ^ 53" by simp
qed

lemma float_round_bounds:
  assumes "0 < x"
  shows "pow2 (floor_log2 x) \<le> float_round x" and "float_round x \<le> pow2 (floor_log2 x + 1)"
proof -
  let ?e = "floor_log2 x"
  let ?u = "pow2 (?e - 52)"
  let ?M = "round_half_even (x / ?u)"
  have fr: "float_round x = of_int ?M * ?u" using assms by (rule float_round_pos)
  have "(of_int (2 ^ 52) :: rat) \<le> of_int ?M"
    using significand_bounds(1)[OF assms] by (simp only: of_int_le_iff)
  then have "(2 ^ 52 :: rat) \<le> of_int ?M" by simp
  then have "2 ^ 52 * ?u \<le> of_int ?M * ?u" by (rule mult_right_mono) simp
  then show "pow2 ?e \<le> float_round x" by (simp only: fr pow2_split52[symmetric])
  have "(of_int ?M :: rat) \<le> of_int (2 ^ 53)"
    using significand_bounds(2)[OF assms] by (simp only: of_int_le_iff)
  then have "(of_int ?M :: rat) \<le> 2 ^ 53" by simp
  then have "of_int ?M * ?u \<le> 2 ^ 53 * ?u" by (rule mult_right_mono) simp
  then show "float_round x \<le> pow2 (?e + 1)" by (simp only: fr pow2_split53[symmetric])
qed

lemma float_round_positive: "0 < x \<Longrightarrow> 0 < float_round x"
  using float_round_bounds(1)[of x] pow2_pos[of "floor_log2 x"] by linarith

lemma float_round_mono:
  assumes "0 < x" "x \<le> y"
  shows "float_round x \<le> float_round y"
proof -
  have y: "0 < y" using assms by simp
  have le: "floor_log2 x \<le> floor_log2 y" using assms by (rule floor_log2_mono)
  show ?thesis
  proof (cases "floor_log2 x = floor_log2 y")
    case True
    let ?u = "pow2 (floor_log2 y - 52)"
    have "x / ?u \<le> y / ?u" using assms(2) by (rule divide_right_mono) simp
    from round_half_even_mono[OF this]
    have "(of_int (round_half_even (x / ?u)) :: rat) \<le> of_int (round_half_even (y / ?u))"
      by (simp only: of_int_le_iff)
    then have "of_int (round_half_even (x / ?u)) * ?u \<le> of_int (round_half_even (y / ?u)) * ?u"
      by (rule mult_right_mono) simp
    then show ?thesis using True by (simp only: float_round_pos[OF assms(1)] float_round_pos[OF y])
  next
    case False
    with le have "floor_log2 x + 1 \<le> floor_log2 y" by simp
    then have "pow2 (floor_log2 x + 1) \<le> pow2 (floor_log2 y)" by (rule pow2_mono)
    with float_round_bounds(2)[OF assms(1)] float_round_bounds(1)[OF y] show ?thesis by linarith
  qed
qed

lemma pow2_nonzero [simp]: "pow2 e \<noteq> 0"
  using pow2_pos[of e] by linarith

lemma float_round_exact:
  assumes "0 < m" "m < 2 ^ 53"
  shows "float_round (of_int m * pow2 k) = of_int m * pow2 k"
proof -
  define x :: rat where "x = of_int m * pow2 k"
  define e where "e = floor_log2 x"
  define u where "u = pow2 (e - 52)"
  have x: "0 < x" using assms(1) by (simp add: x_def)
  have u: "u \<noteq> 0" by (simp add: u_def)
  have "(of_int m :: rat) < of_int (2 ^ 53)" using assms(2) by (simp only: of_int_less_iff)
  then have "(of_int m :: rat) < 2 ^ 53" by simp
  then have "x < 2 ^ 53 * pow2 k" unfolding x_def by (rule mult_strict_right_mono) simp
  also have "\<dots> = pow2 (k + 52 + 1)" using pow2_split53[of "k + 52"] by simp
  finally have "pow2 e < pow2 (k + 52 + 1)"
    using floor_log2_bounds(1)[OF x] unfolding e_def by linarith
  then have lt: "e < k + 52 + 1" by (rule pow2_less_cancel)
  define j where "j = nat (k - (e - 52))"
  have "k = (e - 52) + int j" using lt by (simp add: j_def)
  then have "pow2 k = pow2 ((e - 52) + int j)" by (rule arg_cong)
  also have "\<dots> = u * pow2 (int j)" unfolding u_def by (rule pow2_add)
  also have "\<dots> = u * 2 ^ j" by (simp only: pow2_nat)
  finally have k: "pow2 k = u * 2 ^ j" .
  have xu: "x = of_int (m * 2 ^ j) * u" by (simp add: x_def k)
  then have q: "x / u = of_int (m * 2 ^ j)" using u by simp
  have "float_round x = of_int (round_half_even (x / u)) * u"
    unfolding u_def e_def using x by (rule float_round_pos)
  also have "\<dots> = of_int (m * 2 ^ j) * u"
    by (simp only: q round_half_even_of_int)
  also have "\<dots> = x" by (simp only: xu)
  finally show ?thesis by (simp only: x_def)
qed

lemma float_round_of_int:
  assumes "0 \<le> n" "n < 2 ^ 53"
  shows "float_round (of_int n) = of_int n"
proof (cases "n = 0")
  case True
  then show ?thesis by (simp add: float_round_def)
next
  case False
  with assms have "0 < n" by simp
  from float_round_exact[OF this assms(2), of 0] show ?thesis by (simp add: pow2_def)
qed

lemma float_round_idem:
  assumes "0 < x"
  shows "float_round (float_round x) = float_round x"
proof -
  let ?e = "floor_log2 x"
  let ?M = "round_half_even (x / pow2 (?e - 52))"
  have fr: "float_round x = of_int ?M * pow2 (?e - 52)" using assms by (rule float_round_pos)
  have M: "2 ^ 52 \<le> ?M" "?M \<le> 2 ^ 53" using significand_bounds[OF assms] by blast+
  show ?thesis
  proof (cases "?M = 2 ^ 53")
    case False
    with M have "0 < ?M" "?M < 2 ^ 53" by simp_all
    from float_round_exact[OF this] show ?thesis by (simp only: fr)
  next
    case True
    have "float_round x = of_int (2 ^ 53) * pow2 (?e - 52)" by (simp only: fr True)
    also have "\<dots> = 2 ^ 53 * pow2 (?e - 52)" by simp
    also have "\<dots> = pow2 (?e + 1)" by (simp only: pow2_split53[symmetric])
    also have "\<dots> = of_int 1 * pow2 (?e + 1)" by simp
    finally have eq: "float_round x = of_int 1 * pow2 (?e + 1)" .
    have "float_round (of_int 1 * pow2 (?e + 1)) = of_int 1 * pow2 (?e + 1)"
      by (rule float_round_exact) simp_all
    then show ?thesis by (simp only: eq)
  qed
qed

subsection \<open>Placement of the image\<close>

lemma float_round_less_imp:
  assumes "0 < a" "0 < b" "float_round a < float_round b"
  shows "a < float_round b" and "float_round a < b"
proof -
  show "a < float_round b"
  proof (rule ccontr)
    assume "\<not> a < float_round b"
    then have le: "float_round b \<le> a" by simp
    have "float_round (float_round b) \<le> float_round a"
      using float_round_positive[OF assms(2)] le by (rule float_round_mono)
    with assms(3) show False by (simp add: float_round_idem[OF assms(2)])
  qed
  show "float_round a < b"
  proof (rule ccontr)
    assume "\<not> float_round a < b"
    then have le: "b \<le> float_round a" by simp
    have "float_round b \<le> float_round (float_round a)"
      using assms(2) le by (rule float_round_mono)
    with assms(3) show False by (simp add: float_round_idem[OF assms(1)])
  qed
qed

lemma int_of_float_nonneg: "0 \<le> x \<Longrightarrow> int_of_float x = \<lfloor>x\<rfloor>"
  by (simp add: int_of_float_def)

lemma float_of_int_exact: "0 \<le> n \<Longrightarrow> n < 2 ^ 53 \<Longrightarrow> float_of_int n = of_int n"
  by (simp add: float_of_int_def float_round_of_int)

lemma width_bound_height:
  fixes sw sh :: int and pa :: rat
  assumes "0 < sw" "sw < 2 ^ 53" "0 < sh" "sh < 2 ^ 53" "0 < pa"
    and "of_int sw / of_int sh < pa"
  shows "0 \<le> int_of_float (float_round (of_int sw / pa))"
    and "int_of_float (float_round (of_int sw / pa)) \<le> sh"
proof -
  let ?q = "float_round (of_int sw / pa)"
  have pos: "0 < (of_int sw :: rat) / pa" using assms(1,5) by simp
  then have q: "0 < ?q" by (rule float_round_positive)
  have "(of_int sw :: rat) < pa * of_int sh"
    using assms(3,6) by (simp add: pos_divide_less_eq)
  then have "(of_int sw :: rat) / pa < of_int sh"
    using assms(5) by (simp add: pos_divide_less_eq mult.commute)
  then have "(of_int sw :: rat) / pa \<le> of_int sh" by simp
  with pos have "?q \<le> float_round (of_int sh)" by (rule float_round_mono)
  also have "\<dots> = of_int sh" using assms(3,4) by (simp add: float_round_of_int)
  finally have "?q \<le> of_int sh" .
  then have "\<lfloor>?q\<rfloor> \<le> sh" by (simp add: floor_le_iff)
  moreover have "0 \<le> \<lfloor>?q\<rfloor>" using q by simp
  ultimately show "0 \<le> int_of_float ?q" and "int_of_float ?q \<le> sh"
    using q by (simp_all add: int_of_float_def)
qed

lemma height_bound_width:
  fixes sw sh :: int and pa :: rat
  assumes "0 < sw" "sw < 2 ^ 53" "0 < sh" "sh < 2 ^ 53" "0 < pa"
    and "pa < of_int sw / of_int sh"
  shows "0 \<le> int_of_float (float_round (of_int sh * pa))"
    and "int_of_float (float_round (of_int sh * pa)) \<le> sw"
proof -
  let ?q = "float_round (of_int sh * pa)"
  have pos: "0 < (of_int sh :: rat) * pa" using assms(3,5) by simp
  then have q: "0 < ?q" by (rule float_round_positive)
  have "pa * of_int sh < (of_int sw :: rat)"
    using assms(3,6) by (simp add: pos_less_divide_eq)
  then have "(of_int sh :: rat) * pa \<le> of_int sw" by (simp add: mult.commute)
  with pos have "?q \<le> float_round (of_int sw)" by (rule float_round_mono)
  also have "\<dots> = of_int sw" using assms(1,2) by (simp add: float_round_of_int)
  finally have "?q \<le> of_int sw" .
  then have "\<lfloor>?q\<rfloor> \<le> sw" by (simp add: floor_le_iff)
  moreover have "0 \<le> \<lfloor>?q\<rfloor>" using q by simp
  ultimately show "0 \<le> int_of_float ?q" and "int_of_float ?q \<le> sw"
    using q by (simp_all add: int_of_float_def)
qed

lemma load_image_loads_as:
  assumes "load_image d p s = Some (Inr pyimage, s')"
  shows "loads_as d s p pyimage"
proof (cases "map_of (image_cache s) p")
  case (Some c)
  with assms show ?thesis by (simp add: load_image_def loads_as_def)
next
  case None
  with assms show ?thesis
    by (auto simp: load_image_def loads_as_def image_load_def Let_def
        split: option.splits sum.splits)
qed

lemma load_image_no_error:
  assumes "load_image d p s = Some (r, s')" "loads_as d s p pyimage"
  shows "r = Inr pyimage"
proof (cases "map_of (image_cache s) p")
  case (Some c)
  with assms show ?thesis by (simp add: load_image_def loads_as_def)
next
  case None
  with assms show ?thesis
    by (auto simp: load_image_def loads_as_def image_load_def Let_def
        split: option.splits sum.splits)
qed

lemma loads_as_blank: "loads_as d (blank_screen f (s\<lparr> loop := l \<rparr>)) p pyimage = loads_as d s p pyimage"
  by (simp add: loads_as_def blank_screen_def)

lemma play_draws:
  assumes "play d now img lp s = Some (r, s')"
    and "filename img \<noteq> []" "isfile d (filename img)"
    and "loads_as d s (filename img) pyimage"
  shows "(\<exists>e. r = Some e \<and> place_image (scale s) (center s) (screen_size s) pyimage = Inl e) \<or>
     (\<exists>scaled x y. r = None \<and>
        place_image (scale s) (center s) (screen_size s) pyimage = Inr (scaled, x, y) \<and>
        screen s' = screen (blank_screen False s) @ [Blit scaled x y, Flip])"
proof -
  let ?l = "if resolve_loop img lp = 0 then 1 else resolve_loop img lp"
  let ?s2 = "s\<lparr> loop := ?l \<rparr>"
  let ?b = "blank_screen False ?s2"
  from assms(1-3) obtain r3 s3 where ld: "load_image d (filename img) ?b = Some (r3, s3)"
    by (auto simp: play_def Let_def split: if_splits option.splits)
  have "loads_as d ?b (filename img) pyimage" using assms(4) by (simp only: loads_as_blank)
  from load_image_no_error[OF ld this] have r3: "r3 = Inr pyimage" .
  from load_image_frame[OF ld] obtain c n l where
    s3: "s3 = ?b\<lparr> image_cache := c, current_cache_size := n, decoded := l \<rparr>" by blast
  have fl: "scale s3 = scale s" "center s3 = center s" "screen_size s3 = screen_size s"
    "screen s3 = screen (blank_screen False s)"
    by (simp_all add: s3 blank_screen_def)
  show ?thesis
  proof (cases "place_image (scale s) (center s) (screen_size s) pyimage")
    case (Inl e)
    with assms(1-3) ld r3 fl show ?thesis
      by (auto simp: play_def Let_def split: if_splits)
  next
    case (Inr t)
    obtain scaled x y where t: "t = (scaled, x, y)" by (cases t)
    with Inr assms(1-3) ld r3 fl show ?thesis
      by (auto simp: play_def Let_def split: if_splits)
  qed
qed

lemma int_truediv_pos:
  "0 < b \<Longrightarrow> int_truediv a b = Inr (float_round (of_int a / of_int b))"
  by (simp add: int_truediv_def)

lemma place_image_unscaled:
  assumes "0 < sh" "0 < surf_h pyimage"
  shows "place_image False c (sw, sh) pyimage =
     Inr (pyimage,
          (if c \<and> float_round (of_int (int (surf_w pyimage)) / of_int (int (surf_h pyimage)))
                   < float_round (of_int (int sw) / of_int (int sh))
           then (int sw - int (surf_w pyimage)) div 2 else 0),
          (if c \<and> float_round (of_int (int sw) / of_int (int sh))
                   < float_round (of_int (int (surf_w pyimage)) / of_int (int (surf_h pyimage)))
           then (int sh - int (surf_h pyimage)) div 2 else 0))"
  using assms by (auto simp: place_image_def int_truediv_def Let_def)

lemma place_image_width_bound:
  assumes "0 < sh" "0 < surf_h pyimage" "0 < surf_w pyimage" "sw < 2 ^ 53"
    and "float_round (of_int (int sw) / of_int (int sh))
           < float_round (of_int (int (surf_w pyimage)) / of_int (int (surf_h pyimage)))"
  shows "place_image True c (sw, sh) pyimage =
     (let h = int_of_float (float_round (of_int (int sw)
                / float_round (of_int (int (surf_w pyimage)) / of_int (int (surf_h pyimage)))))
      in Inr (transform_scale pyimage (int sw, h), 0, if c then (int sh - h) div 2 else 0))"
proof -
  have pa: "0 < float_round (of_int (int (surf_w pyimage)) / of_int (int (surf_h pyimage)))"
    using assms(2,3) by (intro float_round_positive) simp
  have sw: "float_of_int (int sw) = of_int (int sw)"
    using assms(4) by (intro float_of_int_exact) simp_all
  show ?thesis
    using assms(1,2,5) pa
    by (simp add: place_image_def int_truediv_def float_truediv_def Let_def sw)
qed

lemma place_image_height_bound:
  assumes "0 < sh" "0 < surf_h pyimage" "sh < 2 ^ 53"
    and "float_round (of_int (int (surf_w pyimage)) / of_int (int (surf_h pyimage)))
           < float_round (of_int (int sw) / of_int (int sh))"
  shows "place_image True c (sw, sh) pyimage =
     (let w = int_of_float (float_round (of_int (int sh)
                * float_round (of_int (int (surf_w pyimage)) / of_int (int (surf_h pyimage)))))
      in Inr (transform_scale pyimage (w, int sh), (if c then (int sw - w) div 2 else 0), 0))"
proof -
  have sh: "float_of_int (int sh) = of_int (int sh)"
    using assms(3) by (intro float_of_int_exact) simp_all
  show ?thesis
    using assms(1,2,4)
    by (simp add: place_image_def int_truediv_def float_mul_def Let_def sh)
qed

lemma place_image_same_aspect:
  assumes "0 < sh" "0 < surf_h pyimage"
    and "float_round (of_int (int (surf_w pyimage)) / of_int (int (surf_h pyimage)))
           = float_round (of_int (int sw) / of_int (int sh))"
  shows "place_image True c (sw, sh) pyimage =
     Inr (transform_scale pyimage (int sw, int sh), 0, 0)"
  using assms by (simp add: place_image_def int_truediv_def Let_def)

lemma center_offset:
  fixes a b :: int
  assumes "b \<le> a"
  shows "0 \<le> (a - b) div 2" and "(a - b) div 2 + b \<le> a"
  using assms by simp_all

lemma place_image_visible:
  assumes "0 < sw" "sw < 2 ^ 53" "0 < sh" "sh < 2 ^ 53"
    and "0 < surf_w pyimage" "0 < surf_h pyimage"
    and "sc \<or> (surf_w pyimage \<le> sw \<and> surf_h pyimage \<le> sh)"
  shows "\<exists>scaled x y. place_image sc c (sw, sh) pyimage = Inr (scaled, x, y) \<and>
           fully_visible (sw, sh) scaled x y"
proof -
  let ?sr = "of_int (int sw) / of_int (int sh) :: rat"
  let ?pr = "of_int (int (surf_w pyimage)) / of_int (int (surf_h pyimage)) :: rat"
  let ?sa = "float_round ?sr"
  let ?pa = "float_round ?pr"
  have sr: "0 < ?sr" using assms(1,3) by simp
  have pr: "0 < ?pr" using assms(5,6) by simp
  have pa: "0 < ?pa" using pr by (rule float_round_positive)
  have isw: "0 < int sw" "int sw < 2 ^ 53" using assms(1,2) by simp_all
  have ish: "0 < int sh" "int sh < 2 ^ 53" using assms(3,4) by simp_all
  show ?thesis
  proof (cases sc)
    case False
    with assms(7) have fits: "surf_w pyimage \<le> sw" "surf_h pyimage \<le> sh" by simp_all
    have "int (surf_w pyimage) \<le> int sw" "int (surf_h pyimage) \<le> int sh"
      using fits by simp_all
    from center_offset[OF this(1)] center_offset[OF this(2)] fits show ?thesis
      by (simp add: place_image_unscaled[OF assms(3,6)] False fully_visible_def)
  next
    case True
    consider (w) "?sa < ?pa" | (h) "?pa < ?sa" | (e) "?pa = ?sa" by linarith
    then show ?thesis
    proof cases
      case w
      let ?h = "int_of_float (float_round (of_int (int sw) / ?pa))"
      from float_round_less_imp(1)[OF sr pr w] have "?sr < ?pa" .
      from width_bound_height[OF isw ish pa this] have h: "0 \<le> ?h" "?h \<le> int sh" .
      show ?thesis
        using h center_offset[OF h(2)]
        by (simp add: True place_image_width_bound[OF assms(3,6,5,2) w] Let_def
            fully_visible_def transform_scale_def)
    next
      case h
      let ?w = "int_of_float (float_round (of_int (int sh) * ?pa))"
      from float_round_less_imp(2)[OF pr sr h] have "?pa < ?sr" .
      from height_bound_width[OF isw ish pa this] have w: "0 \<le> ?w" "?w \<le> int sw" .
      show ?thesis
        using w center_offset[OF w(2)]
        by (simp add: True place_image_height_bound[OF assms(3,6,4) h] Let_def
            fully_visible_def transform_scale_def)
    next
      case e
      show ?thesis
        by (simp add: True place_image_same_aspect[OF assms(3,6) e]
            fully_visible_def transform_scale_def)
    qed
  qed
qed


subsection \<open>Rounding errors and proportions\<close>

lemma round_half_even_error: "\<bar>of_int (round_half_even y) - y\<bar> \<le> 1 / 2"
proof -
  have "0 \<le> y - of_int \<lfloor>y\<rfloor>" "y - of_int \<lfloor>y\<rfloor> < 1" by linarith+
  then show ?thesis by (auto simp: round_half_even_def Let_def)
qed

lemma float_round_error:
  assumes "0 < x"
  shows "\<bar>float_round x - x\<bar> * 2 ^ 53 \<le> x"
proof -
  define u where "u = pow2 (floor_log2 x - 52)"
  define M where "M = round_half_even (x / u)"
  have u: "0 < u" by (simp add: u_def)
  have fr: "float_round x = of_int M * u"
    unfolding M_def u_def using assms by (rule float_round_pos)
  have "2 ^ 52 * u \<le> x"
    using floor_log2_bounds(1)[OF assms] pow2_split52[of "floor_log2 x"] by (simp add: u_def)
  then have ux: "u * 2 ^ 52 \<le> x" by (simp add: mult.commute)
  have "float_round x - x = (of_int M - x / u) * u" using u by (simp add: fr field_simps)
  then have "\<bar>float_round x - x\<bar> = \<bar>of_int M - x / u\<bar> * u"
    using u by (simp add: abs_mult)
  also have "\<dots> \<le> (1 / 2) * u"
    using round_half_even_error[of "x / u"] u unfolding M_def by (intro mult_right_mono) simp_all
  finally have "\<bar>float_round x - x\<bar> \<le> u / 2" by simp
  then have "\<bar>float_round x - x\<bar> * 2 ^ 53 \<le> (u / 2) * 2 ^ 53"
    by (intro mult_right_mono) simp_all
  also have "\<dots> = u * 2 ^ 52" by simp
  finally show ?thesis using ux by linarith
qed

lemma float_round_rel:
  fixes x :: rat
  assumes "0 < x"
  shows "x * (1 - 1 / 2 ^ 53) \<le> float_round x" and "float_round x \<le> x * (1 + 1 / 2 ^ 53)"
proof -
  from float_round_error[OF assms] have "\<bar>float_round x - x\<bar> \<le> x / 2 ^ 53"
    by (simp add: pos_le_divide_eq)
  then have "x - x / 2 ^ 53 \<le> float_round x" "float_round x \<le> x + x / 2 ^ 53" by linarith+
  then show "x * (1 - 1 / 2 ^ 53) \<le> float_round x" "float_round x \<le> x * (1 + 1 / 2 ^ 53)"
    by (simp_all add: algebra_simps)
qed

lemma width_bound_proportional:
  fixes sw iw ih :: int
  assumes "0 < sw" "0 < iw" "0 < ih" "sw * ih < 2 ^ 52"
  defines "h \<equiv> \<lfloor>float_round (of_int sw / float_round (of_int iw / of_int ih))\<rfloor>"
  shows "sw * ih - iw \<le> h * iw" and "h * iw \<le> sw * ih"
proof -
  define e :: rat where "e = 1 / 2 ^ 53"
  define r :: rat where "r = of_int iw / of_int ih"
  define pa where "pa = float_round r"
  define z where "z = of_int sw / pa"
  define q where "q = float_round z"
  define S :: rat where "S = of_int (sw * ih)"
  define I :: rat where "I = of_int iw"
  have e: "0 < e" "e < 1" by (simp_all add: e_def)
  have em: "0 \<le> 1 - e" and ep: "0 \<le> 1 + e" using e by simp_all
  have r: "0 < r" using assms(2,3) by (simp add: r_def)
  have I: "0 < I" using assms(2) by (simp add: I_def)
  have rI: "r * of_int ih = I" using assms(3) by (simp add: r_def I_def)
  have pa: "0 < pa" unfolding pa_def using r by (rule float_round_positive)
  have pa_lo: "r * (1 - e) \<le> pa" and pa_hi: "pa \<le> r * (1 + e)"
    unfolding pa_def e_def using float_round_rel[OF r] by blast+
  have z: "0 < z" using assms(1) pa by (simp add: z_def)
  have zpa: "z * pa = of_int sw" using pa by (simp add: z_def)
  have q_lo: "z * (1 - e) \<le> q" and q_hi: "q \<le> z * (1 + e)"
    unfolding q_def e_def using float_round_rel[OF z] by blast+
  have Ssw: "S = of_int sw * of_int ih" by (simp add: S_def)
  have zih: "0 \<le> z * of_int ih" using z assms(3) by simp
  have "(z * of_int ih) * (r * (1 - e)) \<le> (z * of_int ih) * pa"
    using pa_lo zih by (rule mult_left_mono)
  moreover have "(z * of_int ih) * (r * (1 - e)) = z * (r * of_int ih) * (1 - e)" by simp
  moreover have "(z * of_int ih) * pa = (z * pa) * of_int ih" by simp
  ultimately have A: "z * I * (1 - e) \<le> S" by (simp only: rI zpa Ssw)
  have "(z * of_int ih) * pa \<le> (z * of_int ih) * (r * (1 + e))"
    using pa_hi zih by (rule mult_left_mono)
  moreover have "(z * of_int ih) * (r * (1 + e)) = z * (r * of_int ih) * (1 + e)" by simp
  moreover have "(z * of_int ih) * pa = (z * pa) * of_int ih" by simp
  ultimately have B: "S \<le> z * I * (1 + e)" by (simp only: rI zpa Ssw)
  have hq: "of_int h \<le> q" "q < of_int h + 1" unfolding h_def q_def z_def pa_def r_def by linarith+
  have Sint: "S \<le> 2 ^ 52 - 1"
  proof -
    have "sw * ih \<le> 2 ^ 52 - 1" using assms(4) by simp
    then have "(of_int (sw * ih) :: rat) \<le> of_int (2 ^ 52 - 1)" by (simp only: of_int_le_iff)
    then show ?thesis by (simp add: S_def)
  qed
  have S0: "0 < S" using assms(1,3) by (simp add: S_def)
  show "h * iw \<le> sw * ih"
  proof (rule ccontr)
    assume "\<not> h * iw \<le> sw * ih"
    then have "sw * ih + 1 \<le> h * iw" by simp
    then have "(of_int (sw * ih + 1) :: rat) \<le> of_int (h * iw)" by (simp only: of_int_le_iff)
    then have "S + 1 \<le> of_int h * I" by (simp add: S_def I_def)
    also have "\<dots> \<le> q * I" using hq(1) by (rule mult_right_mono) (simp add: I less_imp_le)
    finally have 1: "S + 1 \<le> q * I" .
    have "q * I \<le> z * (1 + e) * I" using q_hi by (rule mult_right_mono) (simp add: I less_imp_le)
    then have "q * I * (1 - e) \<le> z * (1 + e) * I * (1 - e)"
      by (rule mult_right_mono) (rule em)
    also have "\<dots> = (z * I * (1 - e)) * (1 + e)" by (simp add: algebra_simps)
    also have "\<dots> \<le> S * (1 + e)" using A by (rule mult_right_mono) (rule ep)
    finally have 2: "q * I * (1 - e) \<le> S * (1 + e)" .
    have "(S + 1) * (1 - e) \<le> q * I * (1 - e)" using 1 by (rule mult_right_mono) (rule em)
    with 2 have "(S + 1) * (1 - e) \<le> S * (1 + e)" by linarith
    then have "1 - e \<le> 2 * (e * S)" by (simp add: algebra_simps)
    then have "2 ^ 53 - 1 \<le> 2 * S" by (simp add: e_def field_simps)
    with Sint show False by simp
  qed
  show "sw * ih - iw \<le> h * iw"
  proof (rule ccontr)
    assume "\<not> sw * ih - iw \<le> h * iw"
    then have "h * iw + iw + 1 \<le> sw * ih" by simp
    then have "(of_int (h * iw + iw + 1) :: rat) \<le> of_int (sw * ih)" by (simp only: of_int_le_iff)
    then have 1: "(of_int h + 1) * I \<le> S - 1" by (simp add: S_def I_def algebra_simps)
    have "q * I < (of_int h + 1) * I" using hq(2) I by (rule mult_strict_right_mono)
    with 1 have 2: "q * I < S - 1" by linarith
    have "z * (1 - e) * I \<le> q * I" using q_lo by (rule mult_right_mono) (simp add: I less_imp_le)
    then have "z * (1 - e) * I * (1 + e) \<le> q * I * (1 + e)"
      by (rule mult_right_mono) (rule ep)
    moreover have "z * (1 - e) * I * (1 + e) = (z * I * (1 + e)) * (1 - e)" by (simp add: algebra_simps)
    moreover have "S * (1 - e) \<le> (z * I * (1 + e)) * (1 - e)"
      using B by (rule mult_right_mono) (rule em)
    ultimately have 3: "S * (1 - e) \<le> q * I * (1 + e)" by linarith
    have "q * I \<le> S - 1" using 2 by simp
    then have "q * I * (1 + e) \<le> (S - 1) * (1 + e)" by (rule mult_right_mono) (rule ep)
    with 3 have "S * (1 - e) \<le> (S - 1) * (1 + e)" by linarith
    then have "1 + e \<le> 2 * (e * S)" by (simp add: algebra_simps)
    then have "2 ^ 53 + 1 \<le> 2 * S" by (simp add: e_def field_simps)
    with Sint show False by simp
  qed
qed

lemma height_bound_proportional:
  fixes sh iw ih :: int
  assumes "0 < sh" "0 < iw" "0 < ih" "sh * iw < 2 ^ 51"
  defines "w \<equiv> \<lfloor>float_round (of_int sh * float_round (of_int iw / of_int ih))\<rfloor>"
  shows "sh * iw - ih \<le> w * ih" and "w * ih \<le> sh * iw"
proof -
  define e :: rat where "e = 1 / 2 ^ 53"
  define r :: rat where "r = of_int iw / of_int ih"
  define pa where "pa = float_round r"
  define z where "z = of_int sh * pa"
  define q where "q = float_round z"
  define S :: rat where "S = of_int (sh * iw)"
  define J :: rat where "J = of_int ih"
  have e: "0 < e" "e < 1" by (simp_all add: e_def)
  have em: "0 \<le> 1 - e" and ep: "0 \<le> 1 + e" using e by simp_all
  have r: "0 < r" using assms(2,3) by (simp add: r_def)
  have J: "0 < J" using assms(3) by (simp add: J_def)
  have J0: "0 \<le> J" using J by simp
  have rJ: "r * J = of_int iw" using assms(3) by (simp add: r_def J_def)
  have pa: "0 < pa" unfolding pa_def using r by (rule float_round_positive)
  have pa_lo: "r * (1 - e) \<le> pa" and pa_hi: "pa \<le> r * (1 + e)"
    unfolding pa_def e_def using float_round_rel[OF r] by blast+
  have z: "0 < z" using assms(1) pa by (simp add: z_def)
  have q_lo: "z * (1 - e) \<le> q" and q_hi: "q \<le> z * (1 + e)"
    unfolding q_def e_def using float_round_rel[OF z] by blast+
  have S: "S = of_int sh * (r * J)" by (simp add: S_def rJ)
  have shJ: "0 \<le> of_int sh * J" using assms(1) J by simp
  have "(of_int sh * J) * pa \<le> (of_int sh * J) * (r * (1 + e))"
    using pa_hi shJ by (rule mult_left_mono)
  moreover have "(of_int sh * J) * pa = z * J" by (simp add: z_def)
  moreover have "(of_int sh * J) * (r * (1 + e)) = S * (1 + e)" by (simp add: S)
  ultimately have A: "z * J \<le> S * (1 + e)" by simp
  have "(of_int sh * J) * (r * (1 - e)) \<le> (of_int sh * J) * pa"
    using pa_lo shJ by (rule mult_left_mono)
  moreover have "(of_int sh * J) * pa = z * J" by (simp add: z_def)
  moreover have "(of_int sh * J) * (r * (1 - e)) = S * (1 - e)" by (simp add: S)
  ultimately have B: "S * (1 - e) \<le> z * J" by simp
  have wq: "of_int w \<le> q" "q < of_int w + 1" unfolding w_def q_def z_def pa_def r_def by linarith+
  have Sint: "S \<le> 2 ^ 51 - 1"
  proof -
    have "sh * iw \<le> 2 ^ 51 - 1" using assms(4) by simp
    then have "(of_int (sh * iw) :: rat) \<le> of_int (2 ^ 51 - 1)" by (simp only: of_int_le_iff)
    then show ?thesis by (simp add: S_def)
  qed
  have S0: "0 < S" using assms(1,2) by (simp add: S_def)
  show "w * ih \<le> sh * iw"
  proof (rule ccontr)
    assume "\<not> w * ih \<le> sh * iw"
    then have "sh * iw + 1 \<le> w * ih" by simp
    then have "(of_int (sh * iw + 1) :: rat) \<le> of_int (w * ih)" by (simp only: of_int_le_iff)
    then have "S + 1 \<le> of_int w * J" by (simp add: S_def J_def)
    also have "\<dots> \<le> q * J" using wq(1) by (rule mult_right_mono) (rule J0)
    also have "\<dots> \<le> z * (1 + e) * J" using q_hi by (rule mult_right_mono) (rule J0)
    also have "\<dots> = (z * J) * (1 + e)" by simp
    also have "\<dots> \<le> S * (1 + e) * (1 + e)" using A by (rule mult_right_mono) (rule ep)
    finally have "S + 1 \<le> S * (1 + e) * (1 + e)" .
    then have "2 ^ 106 \<le> S * (2 ^ 54 + 1)" by (simp add: e_def field_simps)
    moreover have "S * (2 ^ 54 + 1) \<le> (2 ^ 51 - 1) * (2 ^ 54 + 1)"
      using Sint by (rule mult_right_mono) simp
    ultimately show False by simp
  qed
  show "sh * iw - ih \<le> w * ih"
  proof (rule ccontr)
    assume "\<not> sh * iw - ih \<le> w * ih"
    then have "w * ih + ih + 1 \<le> sh * iw" by simp
    then have "(of_int (w * ih + ih + 1) :: rat) \<le> of_int (sh * iw)" by (simp only: of_int_le_iff)
    then have 1: "(of_int w + 1) * J \<le> S - 1" by (simp add: S_def J_def algebra_simps)
    have "q * J < (of_int w + 1) * J" using wq(2) J by (rule mult_strict_right_mono)
    with 1 have 2: "q * J \<le> S - 1" by linarith
    have "S * (1 - e) * (1 - e) \<le> (z * J) * (1 - e)" using B by (rule mult_right_mono) (rule em)
    also have "\<dots> = z * (1 - e) * J" by simp
    also have "\<dots> \<le> q * J" using q_lo by (rule mult_right_mono) (rule J0)
    finally have "S * (1 - e) * (1 - e) \<le> S - 1" using 2 by linarith
    then have "2 ^ 106 \<le> S * (2 ^ 54 - 1)" by (simp add: e_def field_simps)
    moreover have "S * (2 ^ 54 - 1) \<le> (2 ^ 51 - 1) * (2 ^ 54 - 1)"
      using Sint by (rule mult_right_mono) simp
    ultimately show False by simp
  qed
qed

lemma aspect_less_exact:
  fixes a b c d :: int
  assumes "0 < a" "0 < b" "0 < c" "0 < d" "a * d + c * b < 2 ^ 53" "a * d < c * b"
  shows "float_round (of_int a / of_int b) < float_round (of_int c / of_int d)"
proof -
  define e :: rat where "e = 1 / 2 ^ 53"
  define x :: rat where "x = of_int a / of_int b"
  define y :: rat where "y = of_int c / of_int d"
  define P :: rat where "P = of_int (a * d)"
  define Q :: rat where "Q = of_int (c * b)"
  have x: "0 < x" using assms(1,2) by (simp add: x_def)
  have y: "0 < y" using assms(3,4) by (simp add: y_def)
  have bd: "0 < (of_int b :: rat) * of_int d" using assms(2,4) by simp
  have xP: "x * (of_int b * of_int d) = P" using assms(2) by (simp add: x_def P_def)
  have yQ: "y * (of_int b * of_int d) = Q" using assms(4) by (simp add: y_def Q_def)
  have "a * d + 1 \<le> c * b" using assms(6) by simp
  then have "(of_int (a * d + 1) :: rat) \<le> of_int (c * b)" by (simp only: of_int_le_iff)
  then have PQ: "P + 1 \<le> Q" by (simp add: P_def Q_def)
  have "(of_int (a * d + c * b) :: rat) < of_int (2 ^ 53)" using assms(5) by (simp only: of_int_less_iff)
  then have sum: "P + Q < 2 ^ 53" by (simp add: P_def Q_def)
  have "e * (P + Q) < 1" using sum by (simp add: e_def field_simps)
  then have "P * (1 + e) < Q * (1 - e)" using PQ by (simp add: algebra_simps)
  then have "(x * (1 + e)) * (of_int b * of_int d) < (y * (1 - e)) * (of_int b * of_int d)"
    by (simp add: xP[symmetric] yQ[symmetric] mult_ac)
  then have "x * (1 + e) < y * (1 - e)" using bd by (simp only: mult_less_cancel_right_pos)
  moreover have "float_round x \<le> x * (1 + e)" unfolding e_def using x by (rule float_round_rel(2))
  moreover have "y * (1 - e) \<le> float_round y" unfolding e_def using y by (rule float_round_rel(1))
  ultimately show ?thesis unfolding x_def y_def by linarith
qed

lemma aspect_eq_exact:
  fixes a b c d :: int
  assumes "0 < b" "0 < d" "a * d = c * b"
  shows "float_round (of_int a / of_int b) = float_round (of_int c / of_int d)"
proof -
  have "(of_int (a * d) :: rat) = of_int (c * b)" using assms(3) by simp
  then have "(of_int a :: rat) / of_int b = of_int c / of_int d"
    using assms(1,2) by (simp add: field_simps)
  then show ?thesis by simp
qed

lemma dim_product_bound:
  fixes a b :: nat
  assumes "a < 2 ^ 25" "b < 2 ^ 25"
  shows "int a * int b < 2 ^ 50"
proof -
  have "a * b \<le> (2 ^ 25 - 1) * (2 ^ 25 - 1)" using assms by (intro mult_le_mono) simp_all
  then have "a * b < 2 ^ 50" by simp
  then have "int (a * b) < int (2 ^ 50)" by (simp only: of_nat_less_iff)
  then show ?thesis by simp
qed

lemma place_image_scaled:
  fixes sw sh :: nat
  assumes "0 < sw" "sw < 2 ^ 25" "0 < sh" "sh < 2 ^ 25"
    and "0 < surf_w pyimage" "surf_w pyimage < 2 ^ 25"
    and "0 < surf_h pyimage" "surf_h pyimage < 2 ^ 25"
  shows "\<exists>scaled x y. place_image True c (sw, sh) pyimage = Inr (scaled, x, y) \<and>
      pixels scaled = pixels pyimage \<and>
      (int sw * int (surf_h pyimage) < int (surf_w pyimage) * int sh \<longrightarrow>
         surf_w scaled = sw \<and>
         int sw * int (surf_h pyimage) - int (surf_w pyimage)
           \<le> int (surf_h scaled) * int (surf_w pyimage) \<and>
         int (surf_h scaled) * int (surf_w pyimage) \<le> int sw * int (surf_h pyimage)) \<and>
      (int (surf_w pyimage) * int sh < int sw * int (surf_h pyimage) \<longrightarrow>
         surf_h scaled = sh \<and>
         int sh * int (surf_w pyimage) - int (surf_h pyimage)
           \<le> int (surf_w scaled) * int (surf_h pyimage) \<and>
         int (surf_w scaled) * int (surf_h pyimage) \<le> int sh * int (surf_w pyimage)) \<and>
      (int sw * int (surf_h pyimage) = int (surf_w pyimage) * int sh \<longrightarrow>
         surf_w scaled = sw \<and> surf_h scaled = sh)"
proof -
  let ?iw = "surf_w pyimage"
  let ?ih = "surf_h pyimage"
  let ?sr = "of_int (int sw) / of_int (int sh) :: rat"
  let ?pr = "of_int (int ?iw) / of_int (int ?ih) :: rat"
  let ?sa = "float_round ?sr"
  let ?pa = "float_round ?pr"
  have iw: "0 < ?iw" "?iw < 2 ^ 25" and ih: "0 < ?ih" "?ih < 2 ^ 25"
    using assms(5-8) by simp_all
  have p1: "int sw * int ?ih < 2 ^ 50" using assms(2) ih(2) by (rule dim_product_bound)
  have p2: "int ?iw * int sh < 2 ^ 50" using iw(2) assms(4) by (rule dim_product_bound)
  have p3: "int sh * int ?iw < 2 ^ 50" using assms(4) iw(2) by (rule dim_product_bound)
  have pos: "0 < int sw" "0 < int sh" "0 < int ?iw" "0 < int ?ih"
    using assms(1,3) iw(1) ih(1) by simp_all
  have sw53: "sw < 2 ^ 53" and sh53: "sh < 2 ^ 53" using assms(2,4) by simp_all
  have pa: "0 < ?pa" using pos by (intro float_round_positive) simp
  consider (w) "int sw * int ?ih < int ?iw * int sh"
    | (h) "int ?iw * int sh < int sw * int ?ih"
    | (e) "int sw * int ?ih = int ?iw * int sh" by linarith
  then have "\<exists>scaled x y. place_image True c (sw, sh) pyimage = Inr (scaled, x, y) \<and>
      pixels scaled = pixels pyimage \<and>
      (int sw * int ?ih < int ?iw * int sh \<longrightarrow>
         surf_w scaled = sw \<and>
         int sw * int ?ih - int ?iw \<le> int (surf_h scaled) * int ?iw \<and>
         int (surf_h scaled) * int ?iw \<le> int sw * int ?ih) \<and>
      (int ?iw * int sh < int sw * int ?ih \<longrightarrow>
         surf_h scaled = sh \<and>
         int sh * int ?iw - int ?ih \<le> int (surf_w scaled) * int ?ih \<and>
         int (surf_w scaled) * int ?ih \<le> int sh * int ?iw) \<and>
      (int sw * int ?ih = int ?iw * int sh \<longrightarrow> surf_w scaled = sw \<and> surf_h scaled = sh)"
  proof cases
    case w
    have "int sw * int ?ih + int ?iw * int sh < 2 ^ 53" using p1 p2 by simp
    from aspect_less_exact[OF pos(1,2,3,4) this w] have lt: "?sa < ?pa" .
    let ?q = "float_round (of_int (int sw) / ?pa)"
    have q: "0 < ?q" using pos(1) pa by (intro float_round_positive) simp
    then have iq: "int_of_float ?q = \<lfloor>?q\<rfloor>" by (simp add: int_of_float_def)
    have fl: "0 \<le> \<lfloor>?q\<rfloor>" using q by simp
    have "int sw * int ?ih < 2 ^ 52" using p1 by simp
    from width_bound_proportional[OF pos(1,3,4) this]
    have pr: "int sw * int ?ih - int ?iw \<le> \<lfloor>?q\<rfloor> * int ?iw" "\<lfloor>?q\<rfloor> * int ?iw \<le> int sw * int ?ih" .
    have pl: "place_image True c (sw, sh) pyimage =
        Inr (transform_scale pyimage (int sw, \<lfloor>?q\<rfloor>), 0, if c then (int sh - \<lfloor>?q\<rfloor>) div 2 else 0)"
      using place_image_width_bound[OF assms(3,7,5) sw53, of c] lt iq
      by (simp add: Let_def)
    show ?thesis
      using w pr fl by (simp add: pl transform_scale_def)
  next
    case h
    have "int ?iw * int sh + int sw * int ?ih < 2 ^ 53" using p1 p2 by simp
    from aspect_less_exact[OF pos(3,4,1,2) this h] have lt: "?pa < ?sa" .
    let ?q = "float_round (of_int (int sh) * ?pa)"
    have q: "0 < ?q" using pos(2) pa by (intro float_round_positive) simp
    then have iq: "int_of_float ?q = \<lfloor>?q\<rfloor>" by (simp add: int_of_float_def)
    have fl: "0 \<le> \<lfloor>?q\<rfloor>" using q by simp
    have "int sh * int ?iw < 2 ^ 51" using p3 by simp
    from height_bound_proportional[OF pos(2,3,4) this]
    have pr: "int sh * int ?iw - int ?ih \<le> \<lfloor>?q\<rfloor> * int ?ih" "\<lfloor>?q\<rfloor> * int ?ih \<le> int sh * int ?iw" .
    have pl: "place_image True c (sw, sh) pyimage =
        Inr (transform_scale pyimage (\<lfloor>?q\<rfloor>, int sh), (if c then (int sw - \<lfloor>?q\<rfloor>) div 2 else 0), 0)"
      using place_image_height_bound[OF assms(3,7) sh53, of sw c] lt iq
      by (simp add: Let_def)
    show ?thesis
      using h pr fl by (simp add: pl transform_scale_def)
  next
    case e
    then have "int ?iw * int sh = int sw * int ?ih" by simp
    from aspect_eq_exact[OF pos(4,2) this] have eq: "?pa = ?sa" .
    have pl: "place_image True c (sw, sh) pyimage = Inr (transform_scale pyimage (int sw, int sh), 0, 0)"
      using place_image_same_aspect[OF assms(3,7), of sw c] eq by simp
    show ?thesis
      using e by (simp add: pl transform_scale_def)
  qed
  then show ?thesis .
qed

subsection \<open>Evaluation of the examples\<close>

lemma map_of_delete_append: "map_of (AList.delete p xs @ [(p, v)]) p = Some v"
  by (induction xs) auto

lemma delete_delete_append: "AList.delete p (AList.delete p xs @ [(p, v)]) = AList.delete p xs"
  by (simp add: AList.delete_eq)

lemmas eval_cache = load_image_def image_load_def add_to_cache_def ImagePlayer_def
  add_to_cache_loop_done add_to_cache_loop_step get_image_size_def evict_cache_def
  example_config_def example_disk_def two_mb_def example_player_def wide_def tall_def same_def

subsection \<open>Claims about the cache\<close>

text \<open>
  C1. The claim is that a call of \<^verbatim>\<open>_load_image\<close> on a cache miss always returns, and
  that an image larger than the whole limit is admitted as the only entry once the cache
  is empty. The loop of \<^verbatim>\<open>_add_to_cache\<close> tests the size condition only, and
  \<^verbatim>\<open>_evict_cache\<close> does nothing on an empty cache: with a limit of one megabyte and a
  decoded image of 1024 by 1024 pixels at four bytes each, the first call on the new
  player never returns.
\<close>

theorem oversized_image_never_returns:
  "load_image (\<lambda>p. Some (Some \<lparr> pixels = 0, surf_w = 1024, surf_h = 1024, bytesize = 4 \<rparr>))
     image_path (ImagePlayer (cfg\<lparr> cfg_cache_size_limit := 1 \<rparr>) bg) = None"
  by (simp add: load_image_def image_load_def add_to_cache_def ImagePlayer_def
      add_to_cache_loop_stuck get_image_size_def)

text \<open>
  C2. The claim is that after every completed call of \<^verbatim>\<open>_load_image\<close> or
  \<^verbatim>\<open>_evict_cache\<close> the recorded size is within the limit, unless exactly one image is
  cached whose own size exceeds the limit. The constructor takes the configured limit as
  it is: with a limit of \<open>-1\<close> megabyte a call of \<^verbatim>\<open>_evict_cache\<close> on the new player
  returns, and the empty cache with its recorded size \<open>0\<close> is over the limit.
\<close>

theorem negative_limit_breaks_cache_bound:
  "run_cache_ops [EvictOne]
       (ImagePlayer (example_config\<lparr> cfg_cache_size_limit := - 1 \<rparr>) (None, 0, 0))
     = Some (ImagePlayer (example_config\<lparr> cfg_cache_size_limit := - 1 \<rparr>) (None, 0, 0)) \<and>
   \<not> cache_invariant (ImagePlayer (example_config\<lparr> cfg_cache_size_limit := - 1 \<rparr>) (None, 0, 0))"
  by (simp add: evict_cache_def ImagePlayer_def cache_invariant_def example_config_def)

text \<open>
  C2, for the limits the code can keep. For every sequence of calls of \<^verbatim>\<open>_load_image\<close>
  and \<^verbatim>\<open>_evict_cache\<close> on a newly constructed player, if the calls return then the
  recorded size is the sum of the estimated sizes of the cached images, whatever the
  configured limit; and when the configured limit is not negative the whole cache-state
  invariant holds: the recorded size is within the limit unless exactly one image is
  cached whose own size exceeds the limit. Every prefix of a sequence is a sequence, so
  this holds after each call.
\<close>

theorem cache_invariant_after_ops:
  assumes "run_cache_ops ops (ImagePlayer cfg bg) = Some s"
  shows "current_cache_size s = cache_sum (image_cache s) \<and>
         (0 \<le> cfg_cache_size_limit cfg \<longrightarrow> cache_invariant s)"
proof (cases "0 \<le> cfg_cache_size_limit cfg")
  case True
  from run_cache_ops_ok[OF cache_ok_init[OF True] assms] have "cache_ok s" .
  then show ?thesis by (simp add: cache_ok_def cache_invariant_def)
next
  case False
  then have "cache_size_limit (ImagePlayer cfg bg) < 0" by (simp add: ImagePlayer_def)
  from run_cache_ops_negative_limit[OF _ _ this assms]
  have "image_cache s = [] \<and> current_cache_size s = 0" by (simp add: ImagePlayer_def)
  with False show ?thesis by simp
qed

theorem cache_invariant_after_ops_witness:
  "0 \<le> cfg_cache_size_limit example_config \<and>
   run_cache_ops [GetOrLoad example_disk ''a.png'', GetOrLoad example_disk ''b.png'', EvictOne,
          GetOrLoad example_disk ''c.png'', GetOrLoad example_disk ''a.png'']
        (ImagePlayer example_config (None, 0, 0))
     = Some ((ImagePlayer example_config (None, 0, 0))
         \<lparr> image_cache := [(''c.png'', two_mb 3), (''a.png'', two_mb 1)],
           current_cache_size := 4194304,
           decoded := [''a.png'', ''b.png'', ''c.png'', ''a.png''] \<rparr>) \<and>
   cache_invariant ((ImagePlayer example_config (None, 0, 0))
         \<lparr> image_cache := [(''c.png'', two_mb 3), (''a.png'', two_mb 1)],
           current_cache_size := 4194304,
           decoded := [''a.png'', ''b.png'', ''c.png'', ''a.png''] \<rparr>)"
proof -
  have limit: "0 \<le> cfg_cache_size_limit example_config"
    by (simp add: example_config_def)
  have run: "run_cache_ops [GetOrLoad example_disk ''a.png'', GetOrLoad example_disk ''b.png'',
          EvictOne, GetOrLoad example_disk ''c.png'', GetOrLoad example_disk ''a.png'']
        (ImagePlayer example_config (None, 0, 0))
     = Some ((ImagePlayer example_config (None, 0, 0))
         \<lparr> image_cache := [(''c.png'', two_mb 3), (''a.png'', two_mb 1)],
           current_cache_size := 4194304,
           decoded := [''a.png'', ''b.png'', ''c.png'', ''a.png''] \<rparr>)"
    by (simp add: eval_cache)
  from cache_invariant_after_ops [OF run] limit run show ?thesis by simp
qed

text \<open>
  C3. Eviction follows recency. On an empty cache whose limit holds exactly two of three
  images of the same size, loading A, B, A again (a hit) and then C evicts B: A and C
  stay cached, in this order, and the decoder has been called for A, B and C once each.
\<close>

theorem lru_evicts_least_recently_used:
  assumes "image_cache s = []" "current_cache_size s = 0"
    and "get_image_size a = n" "get_image_size b = n" "get_image_size c = n"
    and "2 * n \<le> cache_size_limit s" "cache_size_limit s < 3 * n"
    and "pA \<noteq> pB" "pA \<noteq> pC" "pB \<noteq> pC"
    and "d pA = Some (Some a)" "d pB = Some (Some b)" "d pC = Some (Some c)"
  shows "run_cache_ops [GetOrLoad d pA, GetOrLoad d pB, GetOrLoad d pA, GetOrLoad d pC] s
     = Some (s\<lparr> image_cache := [(pA, a), (pC, c)], current_cache_size := 2 * n,
                decoded := decoded s @ [pA, pB, pC] \<rparr>)"
proof -
  have n: "0 < n" using assms(6,7) by simp
  let ?s1 = "s\<lparr> image_cache := [(pA, a)], current_cache_size := n,
                 decoded := decoded s @ [pA] \<rparr>"
  let ?s2 = "s\<lparr> image_cache := [(pA, a), (pB, b)], current_cache_size := 2 * n,
                 decoded := decoded s @ [pA, pB] \<rparr>"
  let ?s3 = "s\<lparr> image_cache := [(pB, b), (pA, a)], current_cache_size := 2 * n,
                 decoded := decoded s @ [pA, pB] \<rparr>"
  let ?s4 = "s\<lparr> image_cache := [(pA, a), (pC, c)], current_cache_size := 2 * n,
                 decoded := decoded s @ [pA, pB, pC] \<rparr>"
  have 1: "load_image d pA s = Some (Inr a, ?s1)"
    using assms n
    by (simp add: load_image_def image_load_def add_to_cache_def add_to_cache_loop_done)
  have 2: "load_image d pB ?s1 = Some (Inr b, ?s2)"
    using assms n
    by (simp add: load_image_def image_load_def add_to_cache_def add_to_cache_loop_done)
  have 3: "load_image d pA ?s2 = Some (Inr a, ?s3)"
    using assms n by (simp add: load_image_def)
  let ?t = "s\<lparr> image_cache := [(pB, b), (pA, a)], current_cache_size := 2 * n,
                decoded := decoded s @ [pA, pB, pC] \<rparr>"
  let ?u = "s\<lparr> image_cache := [(pA, a)], current_cache_size := n,
                decoded := decoded s @ [pA, pB, pC] \<rparr>"
  have ev: "evict_cache ?t = ?u"
    using assms by (simp add: evict_cache_def)
  have "add_to_cache_loop n ?t = add_to_cache_loop n ?u"
    using assms add_to_cache_loop_step[of ?t n] by (simp add: ev)
  also have "\<dots> = Some ?u"
    using assms by (simp add: add_to_cache_loop_done)
  finally have lp: "add_to_cache_loop n ?t = Some ?u" .
  have 4: "load_image d pC ?s3 = Some (Inr c, ?s4)"
    using assms n by (simp add: load_image_def image_load_def add_to_cache_def lp)
  show ?thesis by (simp add: 1 2 3 4)
qed

theorem lru_evicts_least_recently_used_witness:
  "run_cache_ops [GetOrLoad example_disk ''a.png'', GetOrLoad example_disk ''b.png'',
          GetOrLoad example_disk ''a.png'', GetOrLoad example_disk ''c.png''] example_player
     = Some (example_player\<lparr> image_cache := [(''a.png'', two_mb 1), (''c.png'', two_mb 3)],
                current_cache_size := 2 * 2097152,
                decoded := decoded example_player @ [''a.png'', ''b.png'', ''c.png''] \<rparr>)"
  by (rule lru_evicts_least_recently_used)
    (simp_all add: example_player_def ImagePlayer_def example_config_def example_disk_def
      two_mb_def get_image_size_def)

text \<open>
  C6. When a path is in the cache, any number \<open>n\<close> of calls of \<^verbatim>\<open>_load_image\<close> for it
  return the cached surface every time. The player afterwards differs from the player
  before in the order of the cache only, where the entry is now the most recent one: the
  list of decoder calls is the same, so neither the decoder nor the file system has been
  touched.
\<close>

theorem repeated_hits_return_cached_surface:
  "map_of (image_cache s) p = Some pyimage \<Longrightarrow>
   load_image_times n d p s =
     Some (replicate n (Inr pyimage),
           if n = 0 then s
           else s\<lparr> image_cache := AList.delete p (image_cache s) @ [(p, pyimage)] \<rparr>)"
proof (induction n arbitrary: s)
  case 0
  then show ?case by simp
next
  case (Suc n)
  let ?s1 = "s\<lparr> image_cache := AList.delete p (image_cache s) @ [(p, pyimage)] \<rparr>"
  have hit: "load_image d p s = Some (Inr pyimage, ?s1)"
    using Suc.prems by (simp add: load_image_def)
  have "map_of (image_cache ?s1) p = Some pyimage"
    using map_of_delete_append[of p "image_cache s" pyimage] by simp
  from Suc.IH[OF this] show ?case
    by (simp add: hit delete_delete_append)
qed

theorem repeated_hits_return_cached_surface_witness:
  "map_of [(''a.png'', two_mb 1), (''b.png'', two_mb 2)] ''a.png'' = Some (two_mb 1) \<and>
   load_image_times 3 example_disk ''a.png''
       (example_player\<lparr> image_cache := [(''a.png'', two_mb 1), (''b.png'', two_mb 2)],
                        current_cache_size := 4194304, decoded := [''a.png'', ''b.png''] \<rparr>)
     = Some ([Inr (two_mb 1), Inr (two_mb 1), Inr (two_mb 1)],
             example_player\<lparr> image_cache := [(''b.png'', two_mb 2), (''a.png'', two_mb 1)],
                        current_cache_size := 4194304, decoded := [''a.png'', ''b.png''] \<rparr>)"
  using repeated_hits_return_cached_surface
    [of "example_player\<lparr> image_cache := [(''a.png'', two_mb 1), (''b.png'', two_mb 2)],
                        current_cache_size := 4194304, decoded := [''a.png'', ''b.png''] \<rparr>"
        "''a.png''" "two_mb 1" 3 example_disk]
  by (simp add: numeral_3_eq_3)

subsection \<open>Claims about playback\<close>

text \<open>
  C4. The claim is that \<^verbatim>\<open>is_playing()\<close> called right after \<^verbatim>\<open>stop()\<close> returns
  false for every loop count, the infinite one included. \<^verbatim>\<open>stop\<close> only moves
  \<open>start_time\<close> back, and \<^verbatim>\<open>is_playing\<close> does not look at the time when the loop
  count is \<open>-1\<close> or less: after \<^verbatim>\<open>play(image, loop=-1)\<close> and \<^verbatim>\<open>stop()\<close>,
  \<^verbatim>\<open>is_playing()\<close> still returns true, whatever the clock says.
\<close>

theorem stop_leaves_infinite_loop_playing:
  "play d t0 \<lparr> filename = [], repeats = r \<rparr> (Some (- 1)) s
     = Some (None, s\<lparr> loop := - 1, start_time := t0 \<rparr>) \<and>
   fst (is_playing t (stop b (s\<lparr> loop := - 1, start_time := t0 \<rparr>))) = True"
  by (simp add: play_def resolve_loop_def is_playing_def stop_def blank_screen_def Let_def)



text \<open>
  C9. When the file name is empty or names no regular file, \<^verbatim>\<open>play\<close> returns without
  an exception, and it has made no call on the screen or the display and none of the
  decoder.
\<close>

theorem play_without_file_draws_nothing:
  assumes "filename img = [] \<or> \<not> isfile d (filename img)"
  shows "\<exists>s'. play d now img lp s = Some (None, s') \<and> screen s' = screen s \<and>
              decoded s' = decoded s"
  using play_skip[OF assms, of now lp s] by simp

theorem play_without_file_draws_nothing_witness:
  "(filename \<lparr> filename = ''missing.png'', repeats = 2 \<rparr> = [] \<or>
      \<not> isfile example_disk (filename \<lparr> filename = ''missing.png'', repeats = 2 \<rparr>)) \<and>
   (\<exists>s'. play example_disk 5 \<lparr> filename = ''missing.png'', repeats = 2 \<rparr> None example_player
           = Some (None, s') \<and>
         screen s' = screen example_player \<and> decoded s' = decoded example_player)"
proof -
  have miss: "filename \<lparr> filename = ''missing.png'', repeats = 2 \<rparr> = [] \<or>
      \<not> isfile example_disk (filename \<lparr> filename = ''missing.png'', repeats = 2 \<rparr>)"
    by (simp add: isfile_def example_disk_def)
  from play_without_file_draws_nothing [OF miss] miss show ?thesis by blast
qed

text \<open>
  C10. When \<^verbatim>\<open>play\<close> skips the drawing because the file name is empty or names no
  regular file, it still stores the loop count (with \<open>0\<close> replaced by \<open>1\<close>) and the
  clock reading \<open>t0\<close>, and it leaves the cache and its recorded size as they were.
  \<^verbatim>\<open>is_playing\<close> at a later reading \<open>t\<close> therefore answers as for a drawn image:
  true when the loop count is \<open>-1\<close> or less, and otherwise true exactly when the float
  \<open>t - t0\<close> is below \<open>duration * loop\<close>.
\<close>

theorem play_without_file_still_times:
  assumes "filename img = [] \<or> \<not> isfile d (filename img)"
  shows "\<exists>s'. play d t0 img lp s = Some (None, s')
     \<and> loop s' = (if resolve_loop img lp = 0 then 1 else resolve_loop img lp)
     \<and> start_time s' = t0
     \<and> image_cache s' = image_cache s \<and> current_cache_size s' = current_cache_size s
     \<and> fst (is_playing t s')
          = (loop s' \<le> - 1 \<or> float_sub t t0 < of_int (duration s * loop s'))"
  using play_skip[OF assms, of t0 lp s]
  by (auto simp: is_playing_def Let_def)

theorem play_without_file_still_times_witness:
  "\<exists>s'. play example_disk 5 \<lparr> filename = ''missing.png'', repeats = 2 \<rparr> None example_player
           = Some (None, s')
     \<and> loop s' = 2 \<and> start_time s' = 5
     \<and> image_cache s' = [] \<and> current_cache_size s' = 0
     \<and> fst (is_playing 12 s')"
proof -
  have miss: "filename \<lparr> filename = ''missing.png'', repeats = 2 \<rparr> = [] \<or>
      \<not> isfile example_disk (filename \<lparr> filename = ''missing.png'', repeats = 2 \<rparr>)"
    by (simp add: isfile_def example_disk_def)
  have sub: "float_sub 12 5 = 7"
    by code_simp
  from play_without_file_still_times [OF miss, of 5 None example_player 12] show ?thesis
    by (auto simp: resolve_loop_def sub example_player_def ImagePlayer_def example_config_def)
qed

subsection \<open>Claims about the drawn frame\<close>

lemma place_wide_example:
  "place_image True True (800, 600) \<lparr> pixels = 4, surf_w = 1000, surf_h = 500, bytesize = 4 \<rparr>
     = Inr (\<lparr> pixels = 4, surf_w = 800, surf_h = 400, bytesize = 4 \<rparr>, 0, 100)"
  by code_simp

lemma place_tall_example:
  "place_image True True (800, 600) \<lparr> pixels = 5, surf_w = 400, surf_h = 800, bytesize = 4 \<rparr>
     = Inr (\<lparr> pixels = 5, surf_w = 300, surf_h = 600, bytesize = 4 \<rparr>, 250, 0)"
  by code_simp

lemma play_wide_example:
  "play example_disk 5 \<lparr> filename = ''wide.png'', repeats = 1 \<rparr> None example_player
     = Some (None, example_player\<lparr> loop := 1, start_time := 5,
          screen := [Fill [0, 0, 0],
                     Blit \<lparr> pixels = 4, surf_w = 800, surf_h = 400, bytesize = 4 \<rparr> 0 100, Flip],
          image_cache := [(''wide.png'', wide)],
          current_cache_size := 2000000, decoded := [''wide.png''] \<rparr>)"
  by (simp add: play_def resolve_loop_def isfile_def blank_screen_def eval_cache
      place_wide_example Let_def)

lemma play_tall_example:
  "play example_disk 5 \<lparr> filename = ''tall.png'', repeats = 1 \<rparr> None example_player
     = Some (None, example_player\<lparr> loop := 1, start_time := 5,
          screen := [Fill [0, 0, 0],
                     Blit \<lparr> pixels = 5, surf_w = 300, surf_h = 600, bytesize = 4 \<rparr> 250 0, Flip],
          image_cache := [(''tall.png'', tall)],
          current_cache_size := 1280000, decoded := [''tall.png''] \<rparr>)"
  by (simp add: play_def resolve_loop_def isfile_def blank_screen_def eval_cache
      place_tall_example Let_def)

lemma place_same_example:
  "place_image True True (800, 600) \<lparr> pixels = 6, surf_w = 400, surf_h = 300, bytesize = 4 \<rparr>
     = Inr (\<lparr> pixels = 6, surf_w = 800, surf_h = 600, bytesize = 4 \<rparr>, 0, 0)"
  by code_simp

lemma play_same_example:
  "play example_disk 5 \<lparr> filename = ''same.png'', repeats = 1 \<rparr> None example_player
     = Some (None, example_player\<lparr> loop := 1, start_time := 5,
          screen := [Fill [0, 0, 0],
                     Blit \<lparr> pixels = 6, surf_w = 800, surf_h = 600, bytesize = 4 \<rparr> 0 0, Flip],
          image_cache := [(''same.png'', same)],
          current_cache_size := 480000, decoded := [''same.png''] \<rparr>)"
  by (simp add: play_def resolve_loop_def isfile_def blank_screen_def eval_cache
      place_same_example Let_def)

lemma play_wide_unscaled_example:
  "play example_disk 5 \<lparr> filename = ''wide.png'', repeats = 1 \<rparr> None
       (example_player\<lparr> scale := False, center := False \<rparr>)
     = Some (None, example_player\<lparr> scale := False, center := False, loop := 1, start_time := 5,
          screen := [Fill [0, 0, 0], Blit wide 0 0, Flip],
          image_cache := [(''wide.png'', wide)],
          current_cache_size := 2000000, decoded := [''wide.png''] \<rparr>)"
proof -
  have "place_image False False (800, 600) wide = Inr (wide, 0, 0)"
    using place_image_unscaled[of 600 wide False 800] by (simp add: wide_def)
  then have pl: "place_image False False (800, 600)
      \<lparr> pixels = 4, surf_w = 1000, surf_h = 500, bytesize = 4 \<rparr>
    = Inr (\<lparr> pixels = 4, surf_w = 1000, surf_h = 500, bytesize = 4 \<rparr>, 0, 0)"
    by (simp add: wide_def)
  show ?thesis
    by (simp add: play_def resolve_loop_def isfile_def blank_screen_def eval_cache pl Let_def)
qed

text \<open>
  C5. The claim is that no combination of the \<open>scale\<close> and \<open>center\<close> flags makes
  \<^verbatim>\<open>play\<close> crop or clip the image. With both flags off the image is drawn at its own
  size in the top left corner: an image of 1000 by 500 pixels on the 800 by 600 screen
  reaches 200 pixels beyond the right edge.
\<close>

theorem unscaled_image_is_clipped:
  "play example_disk 5 \<lparr> filename = ''wide.png'', repeats = 1 \<rparr> None
       (example_player\<lparr> scale := False, center := False \<rparr>)
     = Some (None, example_player\<lparr> scale := False, center := False, loop := 1, start_time := 5,
          screen := [Fill [0, 0, 0], Blit wide 0 0, Flip],
          image_cache := [(''wide.png'', wide)],
          current_cache_size := 2000000, decoded := [''wide.png''] \<rparr>) \<and>
   \<not> fully_visible (800, 600) wide 0 0"
  using play_wide_unscaled_example by (simp add: fully_visible_def wide_def)

text \<open>
  C5, restricted to what the code does. Let the image and the screen have positive
  dimensions below \<open>2 ^ 53\<close>. When \<open>scale\<close> is on, or the image is no larger than the
  screen in either dimension, a call of \<^verbatim>\<open>play\<close> that returns has raised nothing and
  has drawn one frame (background, image, flip) in which the image lies within the screen:
  both offsets are at least \<open>0\<close>, and each offset plus the drawn dimension is at most the
  screen dimension. This holds for both values of \<open>center\<close>.
\<close>

theorem drawn_image_is_fully_visible:
  assumes ret: "play d now img lp s = Some (r, s')"
    and path: "filename img \<noteq> []" "isfile d (filename img)"
    and src: "loads_as d s (filename img) pyimage"
    and iw: "0 < surf_w pyimage" "surf_w pyimage < 2 ^ 53"
    and ih: "0 < surf_h pyimage" "surf_h pyimage < 2 ^ 53"
    and sz: "screen_size s = (sw, sh)"
    and sw: "0 < sw" "sw < 2 ^ 53"
    and sh: "0 < sh" "sh < 2 ^ 53"
    and fit: "scale s \<or> (surf_w pyimage \<le> sw \<and> surf_h pyimage \<le> sh)"
  shows "\<exists>scaled x y. r = None \<and>
           screen s' = screen (blank_screen False s) @ [Blit scaled x y, Flip] \<and>
           fully_visible (sw, sh) scaled x y"
proof -
  from place_image_visible[OF sw sh iw(1) ih(1) fit, of "center s"]
  obtain scaled x y where
    pl: "place_image (scale s) (center s) (sw, sh) pyimage = Inr (scaled, x, y)"
    and vis: "fully_visible (sw, sh) scaled x y" by blast
  from play_draws[OF ret path src] pl vis show ?thesis
    by (auto simp: sz)
qed

theorem drawn_image_is_fully_visible_witness:
  "play example_disk 5 \<lparr> filename = ''wide.png'', repeats = 1 \<rparr> None example_player
     = Some (None, example_player\<lparr> loop := 1, start_time := 5,
          screen := [Fill [0, 0, 0],
                     Blit \<lparr> pixels = 4, surf_w = 800, surf_h = 400, bytesize = 4 \<rparr> 0 100, Flip],
          image_cache := [(''wide.png'', wide)],
          current_cache_size := 2000000, decoded := [''wide.png''] \<rparr>) \<and>
   loads_as example_disk example_player ''wide.png'' wide \<and>
   scale example_player \<and>
   fully_visible (800, 600) \<lparr> pixels = 4, surf_w = 800, surf_h = 400, bytesize = 4 \<rparr> 0 100"
proof -
  have ld: "loads_as example_disk example_player (filename \<lparr> filename = ''wide.png'', repeats = 1 \<rparr>) wide"
    by (simp add: loads_as_def example_player_def ImagePlayer_def example_disk_def)
  have sc: "scale example_player \<or> (surf_w wide \<le> 800 \<and> surf_h wide \<le> 600)"
    by (simp add: example_player_def ImagePlayer_def example_config_def)
  have sz: "screen_size example_player = (800, 600)"
    by (simp add: example_player_def ImagePlayer_def example_config_def)
  have "\<exists>scaled x y. (None :: error option) = None \<and>
      screen (example_player\<lparr> loop := 1, start_time := 5,
          screen := [Fill [0, 0, 0],
                     Blit \<lparr> pixels = 4, surf_w = 800, surf_h = 400, bytesize = 4 \<rparr> 0 100, Flip],
          image_cache := [(''wide.png'', wide)],
          current_cache_size := 2000000, decoded := [''wide.png''] \<rparr>)
        = screen (blank_screen False example_player) @ [Blit scaled x y, Flip] \<and>
      fully_visible (800, 600) scaled x y"
    by (rule drawn_image_is_fully_visible [OF play_wide_example _ _ ld _ _ _ _ sz _ _ _ _ sc])
      (simp_all add: isfile_def example_disk_def wide_def)
  then have "fully_visible (800, 600) \<lparr> pixels = 4, surf_w = 800, surf_h = 400, bytesize = 4 \<rparr> 0 100"
    by auto
  with ld sc play_wide_example show ?thesis
    by (simp add: example_player_def ImagePlayer_def example_config_def)
qed

text \<open>
  C7. Let \<open>scale\<close> be on, and let the screen (\<open>sw\<close> by \<open>sh\<close>) and the image (\<open>iw\<close> by
  \<open>ih\<close>) have positive dimensions below \<open>2 ^ 25\<close>; then the float comparison of the two
  aspect ratios in \<^verbatim>\<open>play\<close> agrees with the exact one. A call of \<^verbatim>\<open>play\<close> that returns
  has drawn the image scaled as follows.
  \<^item> If \<open>sw / sh < iw / ih\<close>, its width is \<open>sw\<close> and its height \<open>h\<close> follows the
    proportion: \<open>sw * ih / iw - 1 \<le> h \<le> sw * ih / iw\<close>.
  \<^item> If \<open>sw / sh > iw / ih\<close>, its height is \<open>sh\<close> and its width \<open>w\<close> follows the
    proportion: \<open>sh * iw / ih - 1 \<le> w \<le> sh * iw / ih\<close>.
  \<^item> If the two ratios are equal, it has the size of the screen, \<open>sw\<close> by \<open>sh\<close>.
  The instances that follow the theorem are the two examples of the claim, 1000 by 500
  becoming 800 by 400 and 400 by 800 becoming 300 by 600 on the screen of 800 by 600, and
  an image of 400 by 300 stretched to 800 by 600.
\<close>

theorem scaling_fills_the_binding_dimension:
  assumes "play d now img lp s = Some (r, s')"
    and "filename img \<noteq> []" "isfile d (filename img)"
    and "loads_as d s (filename img) pyimage"
    and "scale s"
    and "screen_size s = (sw, sh)" "0 < sw" "sw < 2 ^ 25" "0 < sh" "sh < 2 ^ 25"
    and "surf_w pyimage = iw" "0 < iw" "iw < 2 ^ 25"
    and "surf_h pyimage = ih" "0 < ih" "ih < 2 ^ 25"
  shows "\<exists>scaled x y. r = None \<and>
      screen s' = screen (blank_screen False s) @ [Blit scaled x y, Flip] \<and>
      pixels scaled = pixels pyimage \<and>
      (int sw * int ih < int iw * int sh \<longrightarrow>
         surf_w scaled = sw \<and>
         int sw * int ih - int iw \<le> int (surf_h scaled) * int iw \<and>
         int (surf_h scaled) * int iw \<le> int sw * int ih) \<and>
      (int iw * int sh < int sw * int ih \<longrightarrow>
         surf_h scaled = sh \<and>
         int sh * int iw - int ih \<le> int (surf_w scaled) * int ih \<and>
         int (surf_w scaled) * int ih \<le> int sh * int iw) \<and>
      (int sw * int ih = int iw * int sh \<longrightarrow> surf_w scaled = sw \<and> surf_h scaled = sh)"
proof -
  have w: "0 < surf_w pyimage" "surf_w pyimage < 2 ^ 25" using assms(11-13) by simp_all
  have h: "0 < surf_h pyimage" "surf_h pyimage < 2 ^ 25" using assms(14-16) by simp_all
  from place_image_scaled[OF assms(7-10) w h, of "center s"]
  obtain scaled x y where
    pl: "place_image True (center s) (sw, sh) pyimage = Inr (scaled, x, y)"
    and px: "pixels scaled = pixels pyimage"
    and c1: "int sw * int ih < int iw * int sh \<longrightarrow>
         surf_w scaled = sw \<and>
         int sw * int ih - int iw \<le> int (surf_h scaled) * int iw \<and>
         int (surf_h scaled) * int iw \<le> int sw * int ih"
    and c2: "int iw * int sh < int sw * int ih \<longrightarrow>
         surf_h scaled = sh \<and>
         int sh * int iw - int ih \<le> int (surf_w scaled) * int ih \<and>
         int (surf_w scaled) * int ih \<le> int sh * int iw"
    and c3: "int sw * int ih = int iw * int sh \<longrightarrow> surf_w scaled = sw \<and> surf_h scaled = sh"
    unfolding assms(11,14) by blast
  from play_draws[OF assms(1-4)] pl
  have "r = None \<and> screen s' = screen (blank_screen False s) @ [Blit scaled x y, Flip]"
    by (auto simp: assms(5,6))
  with px c1 c2 c3 show ?thesis by blast
qed

theorem scaling_fills_the_binding_dimension_witness:
  "play example_disk 5 \<lparr> filename = ''wide.png'', repeats = 1 \<rparr> None example_player
     = Some (None, example_player\<lparr> loop := 1, start_time := 5,
          screen := [Fill [0, 0, 0],
                     Blit \<lparr> pixels = 4, surf_w = 800, surf_h = 400, bytesize = 4 \<rparr> 0 100, Flip],
          image_cache := [(''wide.png'', wide)],
          current_cache_size := 2000000, decoded := [''wide.png''] \<rparr>) \<and>
   play example_disk 5 \<lparr> filename = ''tall.png'', repeats = 1 \<rparr> None example_player
     = Some (None, example_player\<lparr> loop := 1, start_time := 5,
          screen := [Fill [0, 0, 0],
                     Blit \<lparr> pixels = 5, surf_w = 300, surf_h = 600, bytesize = 4 \<rparr> 250 0, Flip],
          image_cache := [(''tall.png'', tall)],
          current_cache_size := 1280000, decoded := [''tall.png''] \<rparr>) \<and>
   play example_disk 5 \<lparr> filename = ''same.png'', repeats = 1 \<rparr> None example_player
     = Some (None, example_player\<lparr> loop := 1, start_time := 5,
          screen := [Fill [0, 0, 0],
                     Blit \<lparr> pixels = 6, surf_w = 800, surf_h = 600, bytesize = 4 \<rparr> 0 0, Flip],
          image_cache := [(''same.png'', same)],
          current_cache_size := 480000, decoded := [''same.png''] \<rparr>) \<and>
   (\<exists>scaled x y.
      [Fill [0, 0, 0], Blit \<lparr> pixels = 4, surf_w = 800, surf_h = 400, bytesize = 4 \<rparr> 0 100, Flip]
        = [Fill [0, 0, 0], Blit scaled x y, Flip] \<and>
      surf_w scaled = 800 \<and> 800 * 500 - 1000 \<le> int (surf_h scaled) * 1000 \<and>
      int (surf_h scaled) * 1000 \<le> 800 * 500) \<and>
   (\<exists>scaled x y.
      [Fill [0, 0, 0], Blit \<lparr> pixels = 5, surf_w = 300, surf_h = 600, bytesize = 4 \<rparr> 250 0, Flip]
        = [Fill [0, 0, 0], Blit scaled x y, Flip] \<and>
      surf_h scaled = 600 \<and> 600 * 400 - 800 \<le> int (surf_w scaled) * 800 \<and>
      int (surf_w scaled) * 800 \<le> 600 * 400) \<and>
   (\<exists>scaled x y.
      [Fill [0, 0, 0], Blit \<lparr> pixels = 6, surf_w = 800, surf_h = 600, bytesize = 4 \<rparr> 0 0, Flip]
        = [Fill [0, 0, 0], Blit scaled x y, Flip] \<and>
      surf_w scaled = 800 \<and> surf_h scaled = 600)"
proof -
  have sc: "scale example_player"
    by (simp add: example_player_def ImagePlayer_def example_config_def)
  have sz: "screen_size example_player = (800, 600)"
    by (simp add: example_player_def ImagePlayer_def example_config_def)
  have bl: "screen (blank_screen False example_player) = [Fill [0, 0, 0]]"
    by (simp add: blank_screen_def example_player_def ImagePlayer_def example_config_def)
  have ldw: "loads_as example_disk example_player
      (filename \<lparr> filename = ''wide.png'', repeats = 1 \<rparr>) wide"
    by (simp add: loads_as_def example_player_def ImagePlayer_def example_disk_def)
  have ldt: "loads_as example_disk example_player
      (filename \<lparr> filename = ''tall.png'', repeats = 1 \<rparr>) tall"
    by (simp add: loads_as_def example_player_def ImagePlayer_def example_disk_def)
  have lds: "loads_as example_disk example_player
      (filename \<lparr> filename = ''same.png'', repeats = 1 \<rparr>) same"
    by (simp add: loads_as_def example_player_def ImagePlayer_def example_disk_def)
  have "\<exists>scaled x y. (None :: error option) = None \<and>
      screen (example_player\<lparr> loop := 1, start_time := 5,
          screen := [Fill [0, 0, 0],
                     Blit \<lparr> pixels = 4, surf_w = 800, surf_h = 400, bytesize = 4 \<rparr> 0 100, Flip],
          image_cache := [(''wide.png'', wide)],
          current_cache_size := 2000000, decoded := [''wide.png''] \<rparr>)
        = screen (blank_screen False example_player) @ [Blit scaled x y, Flip] \<and>
      pixels scaled = pixels wide \<and>
      (int 800 * int 500 < int 1000 * int 600 \<longrightarrow>
         surf_w scaled = 800 \<and>
         int 800 * int 500 - int 1000 \<le> int (surf_h scaled) * int 1000 \<and>
         int (surf_h scaled) * int 1000 \<le> int 800 * int 500) \<and>
      (int 1000 * int 600 < int 800 * int 500 \<longrightarrow>
         surf_h scaled = 600 \<and>
         int 600 * int 1000 - int 500 \<le> int (surf_w scaled) * int 500 \<and>
         int (surf_w scaled) * int 500 \<le> int 600 * int 1000) \<and>
      (int 800 * int 500 = int 1000 * int 600 \<longrightarrow> surf_w scaled = 800 \<and> surf_h scaled = 600)"
    by (rule scaling_fills_the_binding_dimension [OF play_wide_example _ _ ldw sc sz])
      (simp_all add: isfile_def example_disk_def wide_def)
  then have 1: "\<exists>scaled x y.
      [Fill [0, 0, 0], Blit \<lparr> pixels = 4, surf_w = 800, surf_h = 400, bytesize = 4 \<rparr> 0 100, Flip]
        = [Fill [0, 0, 0], Blit scaled x y, Flip] \<and>
      surf_w scaled = 800 \<and> 800 * 500 - 1000 \<le> int (surf_h scaled) * 1000 \<and>
      int (surf_h scaled) * 1000 \<le> 800 * 500"
    by (simp add: bl)
  have "\<exists>scaled x y. (None :: error option) = None \<and>
      screen (example_player\<lparr> loop := 1, start_time := 5,
          screen := [Fill [0, 0, 0],
                     Blit \<lparr> pixels = 5, surf_w = 300, surf_h = 600, bytesize = 4 \<rparr> 250 0, Flip],
          image_cache := [(''tall.png'', tall)],
          current_cache_size := 1280000, decoded := [''tall.png''] \<rparr>)
        = screen (blank_screen False example_player) @ [Blit scaled x y, Flip] \<and>
      pixels scaled = pixels tall \<and>
      (int 800 * int 800 < int 400 * int 600 \<longrightarrow>
         surf_w scaled = 800 \<and>
         int 800 * int 800 - int 400 \<le> int (surf_h scaled) * int 400 \<and>
         int (surf_h scaled) * int 400 \<le> int 800 * int 800) \<and>
      (int 400 * int 600 < int 800 * int 800 \<longrightarrow>
         surf_h scaled = 600 \<and>
         int 600 * int 400 - int 800 \<le> int (surf_w scaled) * int 800 \<and>
         int (surf_w scaled) * int 800 \<le> int 600 * int 400) \<and>
      (int 800 * int 800 = int 400 * int 600 \<longrightarrow> surf_w scaled = 800 \<and> surf_h scaled = 600)"
    by (rule scaling_fills_the_binding_dimension [OF play_tall_example _ _ ldt sc sz])
      (simp_all add: isfile_def example_disk_def tall_def)
  then have 2: "\<exists>scaled x y.
      [Fill [0, 0, 0], Blit \<lparr> pixels = 5, surf_w = 300, surf_h = 600, bytesize = 4 \<rparr> 250 0, Flip]
        = [Fill [0, 0, 0], Blit scaled x y, Flip] \<and>
      surf_h scaled = 600 \<and> 600 * 400 - 800 \<le> int (surf_w scaled) * 800 \<and>
      int (surf_w scaled) * 800 \<le> 600 * 400"
    by (simp add: bl)
  have "\<exists>scaled x y. (None :: error option) = None \<and>
      screen (example_player\<lparr> loop := 1, start_time := 5,
          screen := [Fill [0, 0, 0],
                     Blit \<lparr> pixels = 6, surf_w = 800, surf_h = 600, bytesize = 4 \<rparr> 0 0, Flip],
          image_cache := [(''same.png'', same)],
          current_cache_size := 480000, decoded := [''same.png''] \<rparr>)
        = screen (blank_screen False example_player) @ [Blit scaled x y, Flip] \<and>
      pixels scaled = pixels same \<and>
      (int 800 * int 300 < int 400 * int 600 \<longrightarrow>
         surf_w scaled = 800 \<and>
         int 800 * int 300 - int 400 \<le> int (surf_h scaled) * int 400 \<and>
         int (surf_h scaled) * int 400 \<le> int 800 * int 300) \<and>
      (int 400 * int 600 < int 800 * int 300 \<longrightarrow>
         surf_h scaled = 600 \<and>
         int 600 * int 400 - int 300 \<le> int (surf_w scaled) * int 300 \<and>
         int (surf_w scaled) * int 300 \<le> int 600 * int 400) \<and>
      (int 800 * int 300 = int 400 * int 600 \<longrightarrow> surf_w scaled = 800 \<and> surf_h scaled = 600)"
    by (rule scaling_fills_the_binding_dimension [OF play_same_example _ _ lds sc sz])
      (simp_all add: isfile_def example_disk_def same_def)
  then have 3: "\<exists>scaled x y.
      [Fill [0, 0, 0], Blit \<lparr> pixels = 6, surf_w = 800, surf_h = 600, bytesize = 4 \<rparr> 0 0, Flip]
        = [Fill [0, 0, 0], Blit scaled x y, Flip] \<and>
      surf_w scaled = 800 \<and> surf_h scaled = 600"
    by (simp add: bl)
  from play_wide_example play_tall_example play_same_example 1 2 3 show ?thesis by blast
qed

end
